theory Spec2Isabelle
  imports Complex_Main "HOL-Library.AList"
begin

section \<open>Fixed-timestep loop (GameLoop)\<close>

text \<open>
  JavaScript numbers are modelled as exact rationals: \<open>performance.now()\<close> readings, the
  fixed tick \<open>1000 / targetFPS\<close> and the accumulator are values of type \<open>rat\<close>, so the
  rounding of IEEE doubles is outside this development.  The tick counter only ever counts
  up from zero and is a natural number.
\<close>

record SystemUpdateContext =
  ctx_deltaTime :: rat
  ctx_totalTime :: rat
  ctx_tickCount :: nat

record GameLoop =
  isRunning :: bool
  animationFrameId :: "nat option"
  targetFPS :: rat
  fixedDeltaTime :: rat
  maxAccumulator :: rat
  lastTime :: rat
  accumulator :: rat
  totalTime :: rat
  tickCount :: nat
  frameCount :: nat
  fpsLastUpdate :: rat
  currentFPS :: int
  rafSeq :: nat

text \<open>
  The constructor.  \<open>1000 / 0\<close> is \<open>Infinity\<close> in JavaScript, which \<open>rat\<close> does not have,
  so a loop is only constructed for a non-zero frame rate.  \<open>rafSeq\<close> is the browser's
  counter behind the handles that \<open>requestAnimationFrame\<close> returns.
\<close>

definition new_GameLoop :: "rat \<Rightarrow> GameLoop option" where
  "new_GameLoop fps =
     (if fps = 0 then None
      else Some \<lparr> isRunning = False, animationFrameId = None, targetFPS = fps,
                  fixedDeltaTime = 1000 / fps, maxAccumulator = (1000 / fps) * 10,
                  lastTime = 0, accumulator = 0, totalTime = 0, tickCount = 0,
                  frameCount = 0, fpsLastUpdate = 0, currentFPS = 0, rafSeq = 0 \<rparr>)"

text \<open>
  The loop's callback is a closure over the world; it is a parameter here, a function on
  a world state \<open>'w\<close> that also says whether it threw.  The \<open>while\<close> loop of \<open>loop\<close> runs
  forever when the fixed tick is not positive, so it is a partial function: \<open>None\<close> is
  "does not return".
\<close>

type_synonym 'w GameLoopCallback = "SystemUpdateContext \<Rightarrow> 'w \<Rightarrow> 'w \<times> bool"

partial_function (option) fixed_updates ::
  "'w GameLoopCallback \<Rightarrow> GameLoop \<Rightarrow> 'w \<Rightarrow> (GameLoop \<times> 'w) option" where
  "fixed_updates cb g w =
     (if accumulator g \<ge> fixedDeltaTime g then
        (let context = \<lparr> ctx_deltaTime = fixedDeltaTime g, ctx_totalTime = totalTime g,
                          ctx_tickCount = tickCount g \<rparr>;
             w' = fst (cb context w)
         in fixed_updates cb
              (g\<lparr> accumulator := accumulator g - fixedDeltaTime g,
                  totalTime := totalTime g + fixedDeltaTime g,
                  tickCount := Suc (tickCount g) \<rparr>) w')
      else Some (g, w))"

definition Math_round :: "rat \<Rightarrow> int" where
  "Math_round x = \<lfloor>x + 1 / 2\<rfloor>"

definition update_fps :: "rat \<Rightarrow> GameLoop \<Rightarrow> GameLoop" where
  "update_fps currentTime g =
     (let g1 = g\<lparr> frameCount := Suc (frameCount g) \<rparr>
      in if currentTime - fpsLastUpdate g1 \<ge> 1000
         then g1\<lparr> currentFPS := Math_round ((of_nat (frameCount g1) * 1000)
                                      / (currentTime - fpsLastUpdate g1)),
                  frameCount := 0, fpsLastUpdate := currentTime \<rparr>
         else g1)"

definition loop :: "'w GameLoopCallback \<Rightarrow> rat \<Rightarrow> GameLoop \<Rightarrow> 'w \<Rightarrow> (GameLoop \<times> 'w) option" where
  "loop cb currentTime g w =
     (if \<not> isRunning g then Some (g, w)
      else
        let g1 = g\<lparr> animationFrameId := Some (rafSeq g), rafSeq := Suc (rafSeq g) \<rparr>;
            deltaTime = currentTime - lastTime g1;
            g2 = g1\<lparr> lastTime := currentTime \<rparr>;
            g3 = g2\<lparr> accumulator := accumulator g2 + min deltaTime (maxAccumulator g2) \<rparr>
        in case fixed_updates cb g3 w of
             None \<Rightarrow> None
           | Some (g4, w') \<Rightarrow> Some (update_fps currentTime g4, w'))"

text \<open>\<open>start\<close> reads the clock (\<open>now\<close>) and runs the first frame at once.\<close>

definition start :: "'w GameLoopCallback \<Rightarrow> rat \<Rightarrow> GameLoop \<Rightarrow> 'w \<Rightarrow> (GameLoop \<times> 'w) option" where
  "start cb now g w =
     (if isRunning g then Some (g, w)
      else loop cb now
             (g\<lparr> isRunning := True, lastTime := now, accumulator := 0, totalTime := 0,
                 tickCount := 0, frameCount := 0, fpsLastUpdate := now \<rparr>) w)"

definition stop :: "GameLoop \<Rightarrow> GameLoop" where
  "stop g =
     (if \<not> isRunning g then g
      else g\<lparr> isRunning := False, animationFrameId := None \<rparr>)"

definition getTickCount :: "GameLoop \<Rightarrow> nat" where
  "getTickCount g = tickCount g"

definition getTotalTime :: "GameLoop \<Rightarrow> rat" where
  "getTotalTime g = totalTime g"


text \<open>
  What the constructor establishes and nothing later changes: a positive fixed tick and a
  cap of ten ticks.
\<close>

definition loop_inv :: "GameLoop \<Rightarrow> bool" where
  "loop_inv g \<longleftrightarrow> 0 < fixedDeltaTime g \<and> maxAccumulator g = fixedDeltaTime g * 10"


text \<open>A 60 Hz loop just after \<open>start\<close> at time 5, used as a concrete input below.\<close>

definition sample_loop :: GameLoop where
  "sample_loop = \<lparr> isRunning = True, animationFrameId = Some 0, targetFPS = 60,
                  fixedDeltaTime = 50 / 3, maxAccumulator = 500 / 3,
                  lastTime = 5, accumulator = 0, totalTime = 0, tickCount = 0,
                  frameCount = 1, fpsLastUpdate = 5, currentFPS = 0, rafSeq = 1 \<rparr>"

section \<open>Event bus (EventBus)\<close>

text \<open>
  Callbacks are JavaScript closures.  The ones modelled are \<open>Handler h\<close>, whose body is the
  list of bus operations \<open>P h\<close> of a handler table \<open>P\<close>, and \<open>Collector\<close>, the closure
  \<open>(event) => events.push(event)\<close> that \<open>executeCommand\<close> creates.  Two callbacks are the
  same function object iff they are equal here.
\<close>

datatype callback = Handler nat | Collector

datatype payload = EmptyObject | CommandData string "string list" "string option" | Opaque string

datatype action =
    Emit string payload "string option"
  | Subscribe string callback int
  | Once string callback int
  | Unsubscribe string callback
  | Throw

type_synonym handlers = "nat \<Rightarrow> action list"

text \<open>
  \<open>ev_ref\<close> and \<open>sub_ref\<close> stand for object identity: every event and every subscription
  object gets the next number of one allocation counter, so a subscription registered
  later has the larger \<open>sub_ref\<close>.  Priorities are integers.
\<close>

record GameEvent =
  ev_type :: string
  ev_data :: payload
  ev_timestamp :: nat
  ev_source :: "string option"
  ev_ref :: nat

record Subscription =
  sub_callback :: callback
  sub_priority :: int
  sub_once :: bool
  sub_ref :: nat

text \<open>
  The bus.  \<open>subscriptions\<close> is the \<open>Map\<close> from event type to subscriber array, in
  insertion order.  The other fields are the bus's surroundings: \<open>clock\<close> is what
  \<open>Date.now()\<close> returns, \<open>nextRef\<close> the allocation counter, \<open>calls\<close> the log of callback
  invocations (which subscription, with which event), and \<open>collected\<close> the \<open>events\<close> array
  that the \<open>Collector\<close> closure pushes to.
\<close>

record EventBus =
  subscriptions :: "(string \<times> Subscription list) list"
  eventHistory :: "GameEvent list"
  maxHistorySize :: nat
  clock :: nat
  nextRef :: nat
  calls :: "(Subscription \<times> GameEvent) list"
  collected :: "GameEvent list"

definition new_EventBus :: EventBus where
  "new_EventBus = \<lparr> subscriptions = [], eventHistory = [], maxHistorySize = 1000,
                     clock = 0, nextRef = 0, calls = [], collected = [] \<rparr>"

text \<open>\<open>subs.sort((a, b) => b.priority - a.priority)\<close>: a stable sort, highest priority first.\<close>

definition sort_by_priority :: "Subscription list \<Rightarrow> Subscription list" where
  "sort_by_priority subs = sort_key (\<lambda>s. - sub_priority s) subs"

text \<open>
  \<open>subscribe\<close> and \<open>once\<close> differ in the \<open>once\<close> flag only.  Each returns the bus and the
  new subscription's identity, which is all the returned unsubscribe closure needs.
\<close>

definition add_subscription :: "bool \<Rightarrow> string \<Rightarrow> callback \<Rightarrow> int \<Rightarrow> EventBus \<Rightarrow> EventBus \<times> nat" where
  "add_subscription is_once eventType cb priority b =
     (let m = (if map_of (subscriptions b) eventType = None
               then AList.update eventType [] (subscriptions b) else subscriptions b);
          subscription = \<lparr> sub_callback = cb, sub_priority = priority, sub_once = is_once,
                           sub_ref = nextRef b \<rparr>;
          subs = (case map_of m eventType of Some l \<Rightarrow> l | None \<Rightarrow> []) @ [subscription]
      in (b\<lparr> subscriptions := AList.update eventType (sort_by_priority subs) m,
              nextRef := Suc (nextRef b) \<rparr>,
          sub_ref subscription))"

definition subscribe :: "string \<Rightarrow> callback \<Rightarrow> int \<Rightarrow> EventBus \<Rightarrow> EventBus \<times> nat" where
  "subscribe = add_subscription False"

definition once :: "string \<Rightarrow> callback \<Rightarrow> int \<Rightarrow> EventBus \<Rightarrow> EventBus \<times> nat" where
  "once = add_subscription True"

text \<open>\<open>findIndex\<close>/\<open>indexOf\<close> followed by \<open>splice(index, 1)\<close>: drop the first match, if any.\<close>

fun remove_first :: "('a \<Rightarrow> bool) \<Rightarrow> 'a list \<Rightarrow> 'a list" where
  "remove_first p [] = []"
| "remove_first p (x # xs) = (if p x then xs else x # remove_first p xs)"

text \<open>
  Removing one subscription object from the array it was pushed to: the closure returned
  by \<open>subscribe\<close>/\<open>once\<close>, and the removal of a \<open>once\<close> subscription in \<open>emit\<close>.  A
  subscription object lives in the array of its event type only, and an array dropped by
  \<open>clear\<close> is no longer read by anything, so removing from the current array of the type
  has the same visible effect.
\<close>

definition remove_subscription :: "string \<Rightarrow> nat \<Rightarrow> EventBus \<Rightarrow> EventBus" where
  "remove_subscription eventType r b =
     b\<lparr> subscriptions :=
          AList.map_entry eventType (remove_first (\<lambda>s. sub_ref s = r)) (subscriptions b) \<rparr>"

definition unsubscribe :: "string \<Rightarrow> callback \<Rightarrow> EventBus \<Rightarrow> EventBus" where
  "unsubscribe eventType cb b =
     (case map_of (subscriptions b) eventType of
        None \<Rightarrow> b
      | Some subs \<Rightarrow>
          b\<lparr> subscriptions :=
               AList.update eventType (remove_first (\<lambda>s. sub_callback s = cb) subs)
                 (subscriptions b) \<rparr>)"

definition push_history :: "GameEvent \<Rightarrow> EventBus \<Rightarrow> EventBus" where
  "push_history event b =
     (let h = eventHistory b @ [event]
      in b\<lparr> eventHistory := (if length h > maxHistorySize b then tl h else h) \<rparr>)"

text \<open>
  \<open>emit\<close> calls the callbacks of a snapshot in turn (\<open>dispatch\<close>), and a handler's body
  (\<open>exec\<close>, which also says whether the handler threw) may emit again.  The nesting depth
  of emits is bounded by the fuel argument of \<open>emit\<close>, and \<open>None\<close> means that the fuel ran
  out; \<open>exec\<close> and \<open>dispatch\<close> take the emit of the next nesting level as \<open>em\<close>.
\<close>

type_synonym emitter = "string \<Rightarrow> payload \<Rightarrow> string option \<Rightarrow> EventBus \<Rightarrow> EventBus option"

primrec exec :: "emitter \<Rightarrow> action list \<Rightarrow> EventBus \<Rightarrow> (EventBus \<times> bool) option" where
  "exec em [] b = Some (b, False)"
| "exec em (a # rest) b =
     (case a of
        Throw \<Rightarrow> Some (b, True)
      | Emit eventType d source \<Rightarrow>
          (case em eventType d source b of
             None \<Rightarrow> None
           | Some b1 \<Rightarrow> exec em rest b1)
      | Subscribe eventType cb priority \<Rightarrow>
          exec em rest (fst (subscribe eventType cb priority b))
      | Once eventType cb priority \<Rightarrow>
          exec em rest (fst (once eventType cb priority b))
      | Unsubscribe eventType cb \<Rightarrow>
          exec em rest (unsubscribe eventType cb b))"

text \<open>
  One callback invocation inside the \<open>try\<close> block: the call is logged, then the callback
  runs.  What it threw is dropped, as the \<open>catch\<close> only prints it.
\<close>

definition invoke :: "emitter \<Rightarrow> handlers \<Rightarrow> Subscription \<Rightarrow> GameEvent \<Rightarrow> EventBus \<Rightarrow> EventBus option" where
  "invoke em P sub event b =
     (let b1 = b\<lparr> calls := calls b @ [(sub, event)] \<rparr>
      in case sub_callback sub of
           Collector \<Rightarrow> Some (b1\<lparr> collected := collected b1 @ [event] \<rparr>)
         | Handler h \<Rightarrow> map_option fst (exec em (P h) b1))"

primrec dispatch :: "emitter \<Rightarrow> handlers \<Rightarrow> string \<Rightarrow> GameEvent \<Rightarrow> Subscription list \<Rightarrow> EventBus \<Rightarrow> EventBus option" where
  "dispatch em P eventType event [] b = Some b"
| "dispatch em P eventType event (sub # subsToCall) b =
     (case invoke em P sub event b of
        None \<Rightarrow> None
      | Some b1 \<Rightarrow>
          dispatch em P eventType event subsToCall
            (if sub_once sub then remove_subscription eventType (sub_ref sub) b1 else b1))"

primrec emit :: "handlers \<Rightarrow> nat \<Rightarrow> emitter" where
  "emit P 0 = (\<lambda>eventType d source b. None)"
| "emit P (Suc n) = (\<lambda>eventType d source b.
     let event = \<lparr> ev_type = eventType, ev_data = d, ev_timestamp = clock b,
                    ev_source = source, ev_ref = nextRef b \<rparr>;
         b1 = push_history event (b\<lparr> nextRef := Suc (nextRef b) \<rparr>)
     in case map_of (subscriptions b1) eventType of
          None \<Rightarrow> Some b1
        | Some subs \<Rightarrow>
            if subs = [] then Some b1
            else dispatch (emit P n) P eventType event subs b1)"

text \<open>
  \<open>getHistory(eventType?, limit?)\<close>.  An empty type string and a zero limit are falsy and
  filter nothing; \<open>slice(-limit)\<close> keeps the last \<open>limit\<close> events for a positive limit and
  drops the first \<open>-limit\<close> for a negative one.
\<close>

definition getHistory :: "string option \<Rightarrow> int option \<Rightarrow> EventBus \<Rightarrow> GameEvent list" where
  "getHistory eventType limit b =
     (let history = (case eventType of
                       None \<Rightarrow> eventHistory b
                     | Some t \<Rightarrow> if t = [] then eventHistory b
                                else filter (\<lambda>e. ev_type e = t) (eventHistory b))
      in case limit of
           None \<Rightarrow> history
         | Some l \<Rightarrow>
             if l = 0 then history
             else if 0 < l then drop (length history - nat l) history
             else drop (nat (- l)) history)"

definition clear :: "EventBus \<Rightarrow> EventBus" where
  "clear b = b\<lparr> subscriptions := [] \<rparr>"

definition clearHistory :: "EventBus \<Rightarrow> EventBus" where
  "clearHistory b = b\<lparr> eventHistory := [] \<rparr>"

definition getSubscriptionCount :: "string option \<Rightarrow> EventBus \<Rightarrow> nat" where
  "getSubscriptionCount eventType b =
     (case eventType of
        None \<Rightarrow> sum_list (map (\<lambda>(t, subs). length subs) (subscriptions b))
      | Some t \<Rightarrow>
          if t = [] then sum_list (map (\<lambda>(t, subs). length subs) (subscriptions b))
          else (case map_of (subscriptions b) t of None \<Rightarrow> 0 | Some subs \<Rightarrow> length subs))"

subsection \<open>GameWorld.executeCommand\<close>

record CommandResult =
  success :: bool
  message :: string
  events :: "GameEvent list option"

text \<open>
  The command is \<open>{command, args, playerId?}\<close>.  Nothing inside the \<open>try\<close> block throws
  (\<open>emit\<close> catches what callbacks throw), so the \<open>catch\<close> branch has no counterpart.
\<close>

definition executeCommand ::
  "handlers \<Rightarrow> nat \<Rightarrow> string \<Rightarrow> string list \<Rightarrow> string option \<Rightarrow> EventBus \<Rightarrow> (EventBus \<times> CommandResult) option" where
  "executeCommand P n command args playerId b =
     (let (b1, unsub) = subscribe ''*'' Collector 0 (b\<lparr> collected := [] \<rparr>)
      in case emit P n ''command:executed'' (CommandData command args playerId) None b1 of
           None \<Rightarrow> None
         | Some b2 \<Rightarrow>
             let b3 = remove_subscription ''*'' unsub b2
             in Some (b3, \<lparr> success = True, message = ''Command executed'',
                           events = Some (collected b3) \<rparr>))"

subsection \<open>Notions used to state the bus properties\<close>

text \<open>The subscriber array of an event type, empty when the type has none.\<close>

definition current_subscribers :: "string \<Rightarrow> EventBus \<Rightarrow> Subscription list" where
  "current_subscribers eventType b =
     (case map_of (subscriptions b) eventType of None \<Rightarrow> [] | Some subs \<Rightarrow> subs)"

text \<open>
  \<open>fires_before s t\<close>: \<open>s\<close> has the higher priority, or the same priority and was registered
  earlier.  A subscriber array is \<open>priority_ordered\<close> when each element fires before all
  later ones.
\<close>

definition fires_before :: "Subscription \<Rightarrow> Subscription \<Rightarrow> bool" where
  "fires_before s t \<longleftrightarrow>
     sub_priority t < sub_priority s \<or> (sub_priority s = sub_priority t \<and> sub_ref s < sub_ref t)"

definition priority_ordered :: "Subscription list \<Rightarrow> bool" where
  "priority_ordered subs = sorted_wrt fires_before subs"

text \<open>
  The invariant of the bus, and what it means for an emitter to keep it.
\<close>

definition bus_inv :: "EventBus \<Rightarrow> bool" where
  "bus_inv b \<longleftrightarrow>
     (\<forall>t subs. map_of (subscriptions b) t = Some subs \<longrightarrow>
        priority_ordered subs \<and> (\<forall>s\<in>set subs. sub_ref s < nextRef b))"

definition keeps_inv :: "emitter \<Rightarrow> bool" where
  "keeps_inv em \<longleftrightarrow> (\<forall>t d s b b'. bus_inv b \<longrightarrow> em t d s b = Some b' \<longrightarrow> bus_inv b')"

text \<open>
  \<open>later b b'\<close>: \<open>b'\<close> comes after \<open>b\<close>; the call log has only grown, and every added call
  carries an event allocated since \<open>b\<close>.
\<close>

definition later :: "EventBus \<Rightarrow> EventBus \<Rightarrow> bool" where
  "later b b' \<longleftrightarrow>
     nextRef b \<le> nextRef b' \<and>
     (\<exists>cs. calls b' = calls b @ cs \<and> (\<forall>c\<in>set cs. nextRef b \<le> ev_ref (snd c)))"

definition fresh_refs :: "emitter \<Rightarrow> bool" where
  "fresh_refs em \<longleftrightarrow> (\<forall>t d s b b'. em t d s b = Some b' \<longrightarrow> later b b')"

text \<open>
  The bus states that the operations can produce from a new bus, for a handler table \<open>P\<close>.
\<close>

inductive reachable :: "handlers \<Rightarrow> EventBus \<Rightarrow> bool" for P :: handlers where
  r_new: "reachable P new_EventBus"
| r_subscribe: "reachable P b \<Longrightarrow> reachable P (fst (subscribe t cb p b))"
| r_once: "reachable P b \<Longrightarrow> reachable P (fst (once t cb p b))"
| r_unsubscribe: "reachable P b \<Longrightarrow> reachable P (unsubscribe t cb b)"
| r_closure: "reachable P b \<Longrightarrow> reachable P (remove_subscription t r b)"
| r_emit: "reachable P b \<Longrightarrow> emit P n t d s b = Some b' \<Longrightarrow> reachable P b'"
| r_clear: "reachable P b \<Longrightarrow> reachable P (clear b)"
| r_clearHistory: "reachable P b \<Longrightarrow> reachable P (clearHistory b)"
| r_executeCommand: "reachable P b \<Longrightarrow> executeCommand P n c a pl b = Some (b', res) \<Longrightarrow> reachable P b'"
| r_clock: "reachable P b \<Longrightarrow> reachable P (b\<lparr> clock := k \<rparr>)"

text \<open>
  Handlers that never emit, and one emitter returning whatever another returns (as
  \<open>emit\<close> does with more fuel).
\<close>

fun is_Emit :: "action \<Rightarrow> bool" where
  "is_Emit (Emit t d s) = True"
| "is_Emit a = False"

definition no_reemission :: "handlers \<Rightarrow> bool" where
  "no_reemission P \<longleftrightarrow> (\<forall>h. \<not> list_ex is_Emit (P h))"

definition extends_emitter :: "emitter \<Rightarrow> emitter \<Rightarrow> bool" where
  "extends_emitter em em' \<longleftrightarrow> (\<forall>t d s b b'. em t d s b = Some b' \<longrightarrow> em' t d s b = Some b')"

text \<open>Concrete inputs used below.\<close>

definition no_handlers :: handlers where
  "no_handlers h = []"

definition three_subscribers :: EventBus where
  "three_subscribers =
     fst (subscribe ''hit'' (Handler 3) 0
       (fst (subscribe ''hit'' (Handler 2) 10
         (fst (subscribe ''hit'' (Handler 1) 0 new_EventBus)))))"

text \<open>
  Handler 0 unsubscribes itself and emits \<open>hit\<close> again; handler 1 does nothing.  On
  \<open>nested_once_bus\<close> handler 0 is subscribed to \<open>hit\<close> with priority 10 and handler 1 is a
  \<open>once\<close> subscriber with priority 0.
\<close>

definition reemitting_handlers :: handlers where
  "reemitting_handlers h =
     (if h = 0 then [Unsubscribe ''hit'' (Handler 0), Emit ''hit'' EmptyObject None] else [])"

definition nested_once_bus :: EventBus where
  "nested_once_bus =
     fst (once ''hit'' (Handler 1) 0 (fst (subscribe ''hit'' (Handler 0) 10 new_EventBus)))"

section \<open>JavaScript values\<close>

text \<open>
  Component data is \<open>any\<close> JavaScript value built from JSON-like data.  Objects are lists
  of fields in insertion order.  An array has its elements and, as every JavaScript array
  can, named properties besides them (the second argument of \<open>JArr\<close>; empty for an array
  literal).  A hole in an array is modelled as an \<open>undefined\<close> element.  Numbers are
  integers.
\<close>

datatype jsval =
    JUndefined
  | JNull
  | JBool bool
  | JNum int
  | JStr string
  | JArr "jsval list" "(string \<times> jsval) list"
  | JObj "(string \<times> jsval) list"

fun truthy :: "jsval \<Rightarrow> bool" where
  "truthy JUndefined = False"
| "truthy JNull = False"
| "truthy (JBool b) = b"
| "truthy (JNum n) = (n \<noteq> 0)"
| "truthy (JStr s) = (s \<noteq> [])"
| "truthy (JArr es ps) = True"
| "truthy (JObj fs) = True"

text \<open>\<open>typeof v === 'object'\<close> and \<open>Array.isArray(v)\<close>.\<close>

fun typeof_object :: "jsval \<Rightarrow> bool" where
  "typeof_object JNull = True"
| "typeof_object (JArr es ps) = True"
| "typeof_object (JObj fs) = True"
| "typeof_object v = False"

fun isArray :: "jsval \<Rightarrow> bool" where
  "isArray (JArr es ps) = True"
| "isArray v = False"

definition field :: "(string \<times> jsval) list \<Rightarrow> string \<Rightarrow> jsval" where
  "field fs k = (case map_of fs k of None \<Rightarrow> JUndefined | Some v \<Rightarrow> v)"

text \<open>
  \<open>v?.k\<close> for a key \<open>k\<close> that is neither an array index nor \<open>length\<close>: \<open>undefined\<close> on
  \<open>null\<close> and \<open>undefined\<close>, the own property on objects and arrays, and \<open>undefined\<close> on the
  other primitives.
\<close>

fun optional_get :: "jsval \<Rightarrow> string \<Rightarrow> jsval" where
  "optional_get (JObj fs) k = field fs k"
| "optional_get (JArr es ps) k = field ps k"
| "optional_get v k = JUndefined"

section \<open>Entity store (EntityManager)\<close>

record Entity =
  ent_id :: string
  ent_type :: string
  components :: "(string \<times> jsval) list"

text \<open>
  A \<open>Set<string>\<close> is a list without repetition in insertion order; a \<open>Map\<close> is a list of
  key/value pairs in insertion order.  The realm and city indices are keyed by whatever
  value the position component holds.
\<close>

definition set_add :: "'a \<Rightarrow> 'a list \<Rightarrow> 'a list" where
  "set_add x s = (if x \<in> set s then s else s @ [x])"

definition set_delete :: "'a \<Rightarrow> 'a list \<Rightarrow> 'a list" where
  "set_delete x s = removeAll x s"

record EntityManager =
  entities :: "(string \<times> Entity) list"
  byType :: "(string \<times> string list) list"
  byRealm :: "(jsval \<times> string list) list"
  byCity :: "(jsval \<times> string list) list"
  byComponent :: "(string \<times> string list) list"

definition new_EntityManager :: EntityManager where
  "new_EntityManager = \<lparr> entities = [], byType = [], byRealm = [], byCity = [], byComponent = [] \<rparr>"

text \<open>
  \<open>if (!index.has(k)) index.set(k, new Set()); index.get(k).add(id)\<close> and
  \<open>index.get(k)?.delete(id)\<close>.
\<close>

definition index_add :: "'k \<Rightarrow> string \<Rightarrow> ('k \<times> string list) list \<Rightarrow> ('k \<times> string list) list" where
  "index_add k i idx =
     AList.update k (set_add i (case map_of idx k of None \<Rightarrow> [] | Some s \<Rightarrow> s)) idx"

definition index_delete :: "'k \<Rightarrow> string \<Rightarrow> ('k \<times> string list) list \<Rightarrow> ('k \<times> string list) list" where
  "index_delete k i idx =
     (case map_of idx k of None \<Rightarrow> idx | Some s \<Rightarrow> AList.update k (set_delete i s) idx)"

definition position_field :: "Entity \<Rightarrow> string \<Rightarrow> jsval" where
  "position_field entity k = optional_get (field (components entity) ''position'') k"

definition updateIndices :: "Entity \<Rightarrow> EntityManager \<Rightarrow> EntityManager" where
  "updateIndices entity m =
     (let m1 = m\<lparr> byType := index_add (ent_type entity) (ent_id entity) (byType m) \<rparr>;
          realm = position_field entity ''realm'';
          m2 = (if truthy realm
                then m1\<lparr> byRealm := index_add realm (ent_id entity) (byRealm m1) \<rparr> else m1);
          city = position_field entity ''city'';
          m3 = (if truthy city
                then m2\<lparr> byCity := index_add city (ent_id entity) (byCity m2) \<rparr> else m2)
      in m3\<lparr> byComponent :=
               foldl (\<lambda>idx componentName. index_add componentName (ent_id entity) idx)
                 (byComponent m3) (map fst (components entity)) \<rparr>)"

definition removeFromIndices :: "Entity \<Rightarrow> EntityManager \<Rightarrow> EntityManager" where
  "removeFromIndices entity m =
     (let m1 = m\<lparr> byType := index_delete (ent_type entity) (ent_id entity) (byType m) \<rparr>;
          realm = position_field entity ''realm'';
          m2 = (if truthy realm
                then m1\<lparr> byRealm := index_delete realm (ent_id entity) (byRealm m1) \<rparr> else m1);
          city = position_field entity ''city'';
          m3 = (if truthy city
                then m2\<lparr> byCity := index_delete city (ent_id entity) (byCity m2) \<rparr> else m2)
      in m3\<lparr> byComponent :=
               foldl (\<lambda>idx componentName. index_delete componentName (ent_id entity) idx)
                 (byComponent m3) (map fst (components entity)) \<rparr>)"

definition add :: "Entity \<Rightarrow> EntityManager \<Rightarrow> EntityManager" where
  "add entity m =
     updateIndices entity (m\<lparr> entities := AList.update (ent_id entity) entity (entities m) \<rparr>)"

definition get :: "string \<Rightarrow> EntityManager \<Rightarrow> Entity option" where
  "get i m = map_of (entities m) i"

definition remove :: "string \<Rightarrow> EntityManager \<Rightarrow> EntityManager \<times> bool" where
  "remove i m =
     (case map_of (entities m) i of
        None \<Rightarrow> (m, False)
      | Some entity \<Rightarrow>
          ((removeFromIndices entity m)\<lparr> entities := AList.delete i (entities m) \<rparr>, True))"

text \<open>
  \<open>update(id, updates)\<close> with \<open>updates: Partial<Entity>\<close>: \<open>Object.assign\<close> overwrites the
  fields that \<open>updates\<close> has.  The entity object stays under the key it was stored with.
\<close>

record EntityUpdates =
  upd_id :: "string option"
  upd_type :: "string option"
  upd_components :: "(string \<times> jsval) list option"

definition assign :: "Entity \<Rightarrow> EntityUpdates \<Rightarrow> Entity" where
  "assign entity updates =
     \<lparr> ent_id = (case upd_id updates of None \<Rightarrow> ent_id entity | Some v \<Rightarrow> v),
       ent_type = (case upd_type updates of None \<Rightarrow> ent_type entity | Some v \<Rightarrow> v),
       components = (case upd_components updates of None \<Rightarrow> components entity | Some v \<Rightarrow> v) \<rparr>"

definition update :: "string \<Rightarrow> EntityUpdates \<Rightarrow> EntityManager \<Rightarrow> EntityManager \<times> bool" where
  "update i updates m =
     (case map_of (entities m) i of
        None \<Rightarrow> (m, False)
      | Some entity \<Rightarrow>
          (let m1 = removeFromIndices entity m;
               entity' = assign entity updates;
               m2 = m1\<lparr> entities := AList.update i entity' (entities m1) \<rparr>
           in (updateIndices entity' m2, True)))"

text \<open>
  \<open>getByType\<close> and \<open>getByComponent\<close> map the ids of an index to the stored entities and
  drop the ids that are not stored (\<open>filter(Boolean)\<close>).
\<close>

definition lookup_ids :: "string list \<Rightarrow> EntityManager \<Rightarrow> Entity list" where
  "lookup_ids ids m = List.map_filter (\<lambda>i. map_of (entities m) i) ids"

definition getByType :: "string \<Rightarrow> EntityManager \<Rightarrow> Entity list" where
  "getByType t m = (case map_of (byType m) t of None \<Rightarrow> [] | Some ids \<Rightarrow> lookup_ids ids m)"

definition getByComponent :: "string \<Rightarrow> EntityManager \<Rightarrow> Entity list" where
  "getByComponent componentName m =
     (case map_of (byComponent m) componentName of None \<Rightarrow> [] | Some ids \<Rightarrow> lookup_ids ids m)"

text \<open>
  The index/store invariant.  \<open>index_ids idx k\<close> is the set of ids that the index holds under
  key \<open>k\<close>; the store is consistent when every entity is stored under its own id and every
  index holds an id exactly when the stored entity with that id has the type, the truthy
  position field or the component.
\<close>

definition index_ids :: "('k \<times> string list) list \<Rightarrow> 'k \<Rightarrow> string set" where
  "index_ids idx k = (case map_of idx k of None \<Rightarrow> {} | Some s \<Rightarrow> set s)"

definition store_consistent :: "EntityManager \<Rightarrow> bool" where
  "store_consistent m \<longleftrightarrow>
     (\<forall>k e. map_of (entities m) k = Some e \<longrightarrow> ent_id e = k) \<and>
     (\<forall>t i. i \<in> index_ids (byType m) t \<longleftrightarrow>
        (\<exists>e. map_of (entities m) i = Some e \<and> ent_type e = t)) \<and>
     (\<forall>r i. i \<in> index_ids (byRealm m) r \<longleftrightarrow>
        (\<exists>e. map_of (entities m) i = Some e \<and> truthy r \<and> position_field e ''realm'' = r)) \<and>
     (\<forall>c i. i \<in> index_ids (byCity m) c \<longleftrightarrow>
        (\<exists>e. map_of (entities m) i = Some e \<and> truthy c \<and> position_field e ''city'' = c)) \<and>
     (\<forall>n i. i \<in> index_ids (byComponent m) n \<longleftrightarrow>
        (\<exists>e. map_of (entities m) i = Some e \<and> n \<in> fst ` set (components e)))"

text \<open>Concrete inputs: two entities with the same id and different types.\<close>

definition npc_e1 :: Entity where
  "npc_e1 = \<lparr> ent_id = ''e1'', ent_type = ''npc'',
              components = [(''position'', JObj [(''realm'', JStr ''north'')])] \<rparr>"

definition item_e1 :: Entity where
  "item_e1 = \<lparr> ent_id = ''e1'', ent_type = ''item'', components = [] \<rparr>"

section \<open>Entity factory (EntityFactory)\<close>

record EntityTemplate =
  tpl_id :: string
  tpl_type :: string
  tpl_description :: "string option"
  tpl_extends :: "string option"
  tpl_components :: "(string \<times> jsval) list"

text \<open>
  What the factory throws: its own \<open>Error\<close>s, and the \<open>TypeError\<close> and \<open>RangeError\<close> that
  the JavaScript operations inside the merge can raise.
\<close>

datatype factory_error =
    TemplateMustHaveId
  | TemplateMustHaveType string
  | ParentDoesNotExist string string
  | CircularOrMissingParents "(string \<times> string option) list"
  | TemplateNotFound string
  | ParentTemplateNotFound string string
  | TypeNotRegistered string
  | EntityValidationFailed string
  | ClonedEntityValidationFailed string
  | TypeError
  | RangeError

text \<open>
  The attached \<open>TypeRegistry\<close> is used through \<open>hasType\<close> and through \<open>validate\<close> followed
  by \<open>formatErrors\<close>; it is represented by these two functions, \<open>reg_validate\<close> giving
  \<open>result.valid\<close> and the formatted errors.
\<close>

record TypeRegistry =
  reg_hasType :: "string \<Rightarrow> bool"
  reg_validate :: "Entity \<Rightarrow> bool \<times> string"

text \<open>
  \<open>customIdGenerator\<close> is a closure; it is a function of the number of calls made to it so
  far (\<open>generatorCalls\<close>).  \<open>factory_now\<close> is what \<open>Date.now()\<close> returns.
\<close>

record EntityFactory =
  templates :: "(string \<times> EntityTemplate) list"
  typeRegistry :: "TypeRegistry option"
  idCounter :: nat
  customIdGenerator :: "(nat \<Rightarrow> string) option"
  generatorCalls :: nat
  factory_now :: nat

definition new_EntityFactory :: "TypeRegistry option \<Rightarrow> EntityFactory" where
  "new_EntityFactory registry =
     \<lparr> templates = [], typeRegistry = registry, idCounter = 0, customIdGenerator = None,
       generatorCalls = 0, factory_now = 0 \<rparr>"

definition truthy_string :: "string option \<Rightarrow> bool" where
  "truthy_string s = (case s of None \<Rightarrow> False | Some v \<Rightarrow> v \<noteq> [])"

definition has_template :: "EntityFactory \<Rightarrow> string option \<Rightarrow> bool" where
  "has_template f i = (case i of None \<Rightarrow> False | Some k \<Rightarrow> map_of (templates f) k \<noteq> None)"

text \<open>
  A call that throws leaves the state as it was at the throw, so registration returns the
  error (if any) together with the factory.
\<close>

definition registerTemplate :: "EntityTemplate \<Rightarrow> EntityFactory \<Rightarrow> factory_error option \<times> EntityFactory" where
  "registerTemplate template f =
     (if tpl_id template = [] then (Some TemplateMustHaveId, f)
      else if tpl_type template = [] then (Some (TemplateMustHaveType (tpl_id template)), f)
      else if truthy_string (tpl_extends template) \<and> \<not> has_template f (tpl_extends template)
      then (Some (ParentDoesNotExist (tpl_id template) (the (tpl_extends template))), f)
      else (None, f\<lparr> templates := AList.update (tpl_id template) template (templates f) \<rparr>))"

text \<open>
  \<open>registerFromJSON\<close>, first pass: templates without \<open>extends\<close> are registered, the others
  are queued in \<open>withInheritance\<close>.
\<close>

fun first_pass :: "EntityTemplate list \<Rightarrow> EntityTemplate list \<Rightarrow> EntityFactory
    \<Rightarrow> factory_error option \<times> EntityTemplate list \<times> EntityFactory" where
  "first_pass [] withInheritance f = (None, withInheritance, f)"
| "first_pass (template # rest) withInheritance f =
     (if truthy_string (tpl_extends template)
      then first_pass rest (withInheritance @ [template]) f
      else (case registerTemplate template f of
              (Some e, f') \<Rightarrow> (Some e, withInheritance, f')
            | (None, f') \<Rightarrow> first_pass rest withInheritance f'))"

text \<open>
  Second pass: the \<open>while (withInheritance.length > 0)\<close> loop.  One iteration takes the
  head of the queue, registers it or pushes it to the back, and then compares the queue
  length with \<open>previousCount\<close>.
\<close>

function second_pass :: "EntityTemplate list \<Rightarrow> nat \<Rightarrow> EntityFactory
    \<Rightarrow> factory_error option \<times> EntityFactory" where
  "second_pass withInheritance previousCount f =
     (case withInheritance of
        [] \<Rightarrow> (None, f)
      | template # rest \<Rightarrow>
          (case (if has_template f (tpl_extends template)
                 then (case registerTemplate template f of (r, f') \<Rightarrow> (r, rest, f'))
                 else (None, rest @ [template], f)) of
             (Some e, queue, f') \<Rightarrow> (Some e, f')
           | (None, queue, f') \<Rightarrow>
               if length queue = previousCount
               then (Some (CircularOrMissingParents
                             (map (\<lambda>t. (tpl_id t, tpl_extends t)) queue)), f')
               else second_pass queue (length queue) f'))"
  by pat_completeness auto
termination
  by (relation "measure (\<lambda>(q, previousCount, f).
        2 * length q + (if previousCount = length q then 0 else 1))")
     (auto split: if_splits prod.splits)

definition registerFromJSON :: "EntityTemplate list \<Rightarrow> EntityFactory \<Rightarrow> factory_error option \<times> EntityFactory" where
  "registerFromJSON templates_in f =
     (case first_pass templates_in [] f of
        (Some e, withInheritance, f') \<Rightarrow> (Some e, f')
      | (None, withInheritance, f') \<Rightarrow> second_pass withInheritance (length withInheritance) f')"

text \<open>Concrete input: a chain \<open>root\<close>, \<open>mid\<close>, \<open>leaf\<close>, listed leaf first.\<close>

definition tpl :: "string \<Rightarrow> string option \<Rightarrow> (string \<times> jsval) list \<Rightarrow> EntityTemplate" where
  "tpl i parent comps =
     \<lparr> tpl_id = i, tpl_type = ''npc'', tpl_description = None, tpl_extends = parent,
       tpl_components = comps \<rparr>"

definition leaf_first :: "EntityTemplate list" where
  "leaf_first = [tpl ''leaf'' (Some ''mid'') [], tpl ''mid'' (Some ''root'') [], tpl ''root'' None []]"

subsection \<open>Cloning and merging component data\<close>

text \<open>
  \<open>deepClone\<close>: primitives are returned as they are, an array is rebuilt with \<open>map\<close> (which
  copies the elements and none of the array's named properties), an object is rebuilt
  from its entries.
\<close>

primrec deepClone :: "jsval \<Rightarrow> jsval" where
  "deepClone JUndefined = JUndefined"
| "deepClone JNull = JNull"
| "deepClone (JBool b) = JBool b"
| "deepClone (JNum n) = JNum n"
| "deepClone (JStr s) = JStr s"
| "deepClone (JArr es ps) = JArr (map deepClone es) []"
| "deepClone (JObj fs) = JObj (map (map_prod id deepClone) fs)"

definition deepClone_record :: "(string \<times> jsval) list \<Rightarrow> (string \<times> jsval) list" where
  "deepClone_record fs = map (map_prod id deepClone) fs"

text \<open>
  Property keys of arrays.  A key is an array index when it is the decimal numeral of a
  number below \<open>2^32 - 1\<close>; writing an index past the end leaves holes before it.
\<close>

definition digit_value :: "char \<Rightarrow> nat" where
  "digit_value c = of_char c - 48"

definition index_value :: "string \<Rightarrow> nat" where
  "index_value k = foldl (\<lambda>a c. 10 * a + digit_value c) 0 k"

definition is_array_index :: "string \<Rightarrow> bool" where
  "is_array_index k \<longleftrightarrow>
     k \<noteq> [] \<and> list_all (\<lambda>c. c \<in> set ''0123456789'') k
     \<and> (k = ''0'' \<or> hd k \<noteq> CHR ''0'') \<and> index_value k < 2 ^ 32 - 1"

definition array_write :: "jsval list \<Rightarrow> nat \<Rightarrow> jsval \<Rightarrow> jsval list" where
  "array_write es i v =
     (if i < length es then es[i := v] else es @ replicate (i - length es) JUndefined @ [v])"

text \<open>
  Assigning to \<open>length\<close> throws a \<open>RangeError\<close> unless the value converts to an integer in
  range.  The conversion of strings and arrays to numbers is the parameter \<open>tn\<close> of the
  functions below (\<open>None\<close> when the result is not such an integer).
\<close>

type_synonym to_number = "jsval \<Rightarrow> nat option"

fun array_length_value :: "to_number \<Rightarrow> jsval \<Rightarrow> nat option" where
  "array_length_value tn (JNum n) = (if 0 \<le> n \<and> n < 2 ^ 32 then Some (nat n) else None)"
| "array_length_value tn JNull = Some 0"
| "array_length_value tn (JBool b) = Some (if b then 1 else 0)"
| "array_length_value tn JUndefined = None"
| "array_length_value tn (JObj fs) = None"
| "array_length_value tn v = tn v"

text \<open>
  \<open>result[key]\<close> and \<open>result[key] = v\<close>.  Reading a property of \<open>null\<close> or \<open>undefined\<close>
  throws, and so does writing one to anything but an array or an object (module code is
  strict).  Properties inherited from a prototype are not modelled.
\<close>

fun get_property :: "jsval \<Rightarrow> string \<Rightarrow> factory_error + jsval" where
  "get_property (JObj fs) key = Inr (field fs key)"
| "get_property (JArr es ps) key =
     Inr (if is_array_index key
          then (if index_value key < length es then es ! index_value key else JUndefined)
          else if key = ''length'' then JNum (int (length es))
          else field ps key)"
| "get_property (JStr s) key =
     Inr (if is_array_index key
          then (if index_value key < length s then JStr [s ! index_value key] else JUndefined)
          else if key = ''length'' then JNum (int (length s))
          else JUndefined)"
| "get_property JNull key = Inl TypeError"
| "get_property JUndefined key = Inl TypeError"
| "get_property v key = Inr JUndefined"

fun set_property :: "to_number \<Rightarrow> jsval \<Rightarrow> string \<Rightarrow> jsval \<Rightarrow> factory_error + jsval" where
  "set_property tn (JObj fs) key v = Inr (JObj (AList.update key v fs))"
| "set_property tn (JArr es ps) key v =
     (if is_array_index key then Inr (JArr (array_write es (index_value key) v) ps)
      else if key = ''length''
      then (case array_length_value tn v of
              None \<Rightarrow> Inl RangeError
            | Some n \<Rightarrow> Inr (JArr (take n es @ replicate (n - length es) JUndefined) ps))
      else Inr (JArr es (AList.update key v ps)))"
| "set_property tn w key v = Inl TypeError"

text \<open>
  \<open>deepMerge(target, source)\<close>, with the loop over \<open>Object.entries(source)\<close> as
  \<open>merge_entries\<close>.  \<open>Object.entries(null)\<close> throws a \<open>TypeError\<close>.
\<close>

fun deepMerge :: "to_number \<Rightarrow> jsval \<Rightarrow> jsval \<Rightarrow> factory_error + jsval"
  and merge_entries :: "to_number \<Rightarrow> jsval \<Rightarrow> (string \<times> jsval) list \<Rightarrow> factory_error + jsval"
where
  "deepMerge tn target source =
     (if \<not> typeof_object target \<or> \<not> typeof_object source then Inr source
      else if isArray source then Inr (deepClone source)
      else (case source of
              JObj fs \<Rightarrow> merge_entries tn (deepClone target) fs
            | _ \<Rightarrow> Inl TypeError))"
| "merge_entries tn result [] = Inr result"
| "merge_entries tn result (entry # rest) =
     (case (if typeof_object (snd entry) \<and> \<not> isArray (snd entry) \<and> snd entry \<noteq> JNull
            then (case get_property result (fst entry) of
                    Inl e \<Rightarrow> Inl e
                  | Inr current \<Rightarrow>
                      deepMerge tn (if truthy current then current else JObj []) (snd entry))
            else Inr (deepClone (snd entry))) of
        Inl e \<Rightarrow> Inl e
      | Inr v \<Rightarrow>
          (case set_property tn result (fst entry) v of
             Inl e \<Rightarrow> Inl e
           | Inr result' \<Rightarrow> merge_entries tn result' rest))"

text \<open>
  \<open>mergeComponents(base, override)\<close>: the loop over \<open>Object.entries(override)\<close> is
  \<open>merge_components_loop\<close>, on the clone of \<open>base\<close>.
\<close>

fun merge_components_loop :: "to_number \<Rightarrow> (string \<times> jsval) list \<Rightarrow> (string \<times> jsval) list
    \<Rightarrow> factory_error + (string \<times> jsval) list" where
  "merge_components_loop tn result [] = Inr result"
| "merge_components_loop tn result ((key, v) # rest) =
     (if truthy (field result key) \<and> typeof_object v \<and> \<not> isArray v
      then (case deepMerge tn (field result key) v of
              Inl e \<Rightarrow> Inl e
            | Inr merged \<Rightarrow> merge_components_loop tn (AList.update key merged result) rest)
      else merge_components_loop tn (AList.update key (deepClone v) result) rest)"

definition mergeComponents :: "to_number \<Rightarrow> (string \<times> jsval) list \<Rightarrow> (string \<times> jsval) list
    \<Rightarrow> factory_error + (string \<times> jsval) list" where
  "mergeComponents tn base override = merge_components_loop tn (deepClone_record base) override"

subsection \<open>Creating entities\<close>

text \<open>
  \<open>resolveTemplate\<close> follows \<open>extends\<close> without a guard against cycles, so it takes fuel:
  \<open>None\<close> means that the fuel ran out.  \<open>a || b\<close> on strings is \<open>or_string\<close>.
\<close>

definition or_string :: "string \<Rightarrow> string \<Rightarrow> string" where
  "or_string a b = (if a \<noteq> [] then a else b)"

definition or_string_option :: "string option \<Rightarrow> string option \<Rightarrow> string option" where
  "or_string_option a b = (if truthy_string a then a else b)"

fun resolveTemplate :: "to_number \<Rightarrow> nat \<Rightarrow> EntityFactory \<Rightarrow> EntityTemplate
    \<Rightarrow> (factory_error + EntityTemplate) option" where
  "resolveTemplate tn 0 f template = None"
| "resolveTemplate tn (Suc n) f template =
     (if \<not> truthy_string (tpl_extends template) then Some (Inr template)
      else (case map_of (templates f) (the (tpl_extends template)) of
              None \<Rightarrow> Some (Inl (ParentTemplateNotFound (the (tpl_extends template))
                                     (tpl_id template)))
            | Some parent \<Rightarrow>
                (case resolveTemplate tn n f parent of
                   None \<Rightarrow> None
                 | Some (Inl e) \<Rightarrow> Some (Inl e)
                 | Some (Inr resolvedParent) \<Rightarrow>
                     (case mergeComponents tn (tpl_components resolvedParent)
                             (tpl_components template) of
                        Inl e \<Rightarrow> Some (Inl e)
                      | Inr merged \<Rightarrow>
                          Some (Inr \<lparr> tpl_id = tpl_id template,
                                      tpl_type = or_string (tpl_type template)
                                                   (tpl_type resolvedParent),
                                      tpl_description =
                                        or_string_option (tpl_description template)
                                          (tpl_description resolvedParent),
                                      tpl_extends = None,
                                      tpl_components = merged \<rparr>)))))"

text \<open>Decimal numerals, for \<open>`entity_${timestamp}_${counter}`\<close>.\<close>

definition digit_char :: "nat \<Rightarrow> char" where
  "digit_char d = ''0123456789'' ! d"

fun show_nat :: "nat \<Rightarrow> string" where
  "show_nat n =
     (if n < 10 then [digit_char n]
      else show_nat (n div 10) @ [digit_char (n mod 10)])"

definition generateId :: "EntityFactory \<Rightarrow> string \<times> EntityFactory" where
  "generateId f =
     (case customIdGenerator f of
        Some generator \<Rightarrow>
          (generator (generatorCalls f), f\<lparr> generatorCalls := Suc (generatorCalls f) \<rparr>)
      | None \<Rightarrow>
          (''entity_'' @ show_nat (factory_now f) @ ''_'' @ show_nat (idCounter f),
           f\<lparr> idCounter := Suc (idCounter f) \<rparr>))"

definition validated :: "(string \<Rightarrow> factory_error) \<Rightarrow> EntityFactory \<Rightarrow> Entity \<Rightarrow> factory_error + Entity" where
  "validated err f entity =
     (case typeRegistry f of
        None \<Rightarrow> Inr entity
      | Some registry \<Rightarrow>
          (case reg_validate registry entity of
             (True, formatted) \<Rightarrow> Inr entity
           | (False, formatted) \<Rightarrow> Inl (err formatted)))"

text \<open>
  \<open>overrides?.id || this.generateId()\<close>: the generator runs only when the override is
  missing or empty.
\<close>

definition override_id :: "EntityUpdates option \<Rightarrow> EntityFactory \<Rightarrow> string \<times> EntityFactory" where
  "override_id overrides f =
     (case overrides of
        None \<Rightarrow> generateId f
      | Some ov \<Rightarrow> if truthy_string (upd_id ov) then (the (upd_id ov), f) else generateId f)"

definition override_type :: "EntityUpdates option \<Rightarrow> string \<Rightarrow> string" where
  "override_type overrides t =
     (case overrides of
        None \<Rightarrow> t
      | Some ov \<Rightarrow> if truthy_string (upd_type ov) then the (upd_type ov) else t)"

definition override_components :: "to_number \<Rightarrow> EntityUpdates option \<Rightarrow> (string \<times> jsval) list
    \<Rightarrow> factory_error + (string \<times> jsval) list" where
  "override_components tn overrides comps =
     (case overrides of
        None \<Rightarrow> Inr comps
      | Some ov \<Rightarrow>
          (case upd_components ov of
             None \<Rightarrow> Inr comps
           | Some oc \<Rightarrow> mergeComponents tn comps oc))"

definition createFromTemplate :: "to_number \<Rightarrow> nat \<Rightarrow> string \<Rightarrow> EntityUpdates option \<Rightarrow> EntityFactory
    \<Rightarrow> ((factory_error + Entity) \<times> EntityFactory) option" where
  "createFromTemplate tn fuel templateId overrides f =
     (case map_of (templates f) templateId of
        None \<Rightarrow> Some (Inl (TemplateNotFound templateId), f)
      | Some template \<Rightarrow>
          (case resolveTemplate tn fuel f template of
             None \<Rightarrow> None
           | Some (Inl e) \<Rightarrow> Some (Inl e, f)
           | Some (Inr resolvedTemplate) \<Rightarrow>
               (let (new_id, f1) = override_id overrides f;
                    entity = \<lparr> ent_id = new_id,
                               ent_type = override_type overrides (tpl_type resolvedTemplate),
                               components = deepClone_record (tpl_components resolvedTemplate) \<rparr>
                in case override_components tn overrides (components entity) of
                     Inl e \<Rightarrow> Some (Inl e, f1)
                   | Inr comps \<Rightarrow>
                       Some (validated EntityValidationFailed f1
                               (entity\<lparr> components := comps \<rparr>), f1))))"

definition createFromType :: "string \<Rightarrow> (string \<times> jsval) list \<Rightarrow> EntityFactory
    \<Rightarrow> (factory_error + Entity) \<times> EntityFactory" where
  "createFromType t comps f =
     (if (case typeRegistry f of None \<Rightarrow> False | Some registry \<Rightarrow> \<not> reg_hasType registry t)
      then (Inl (TypeNotRegistered t), f)
      else (let (new_id, f1) = generateId f;
                entity = \<lparr> ent_id = new_id, ent_type = t, components = deepClone_record comps \<rparr>
            in (validated EntityValidationFailed f1 entity, f1)))"

definition clone :: "to_number \<Rightarrow> Entity \<Rightarrow> EntityUpdates option \<Rightarrow> EntityFactory
    \<Rightarrow> (factory_error + Entity) \<times> EntityFactory" where
  "clone tn entity overrides f =
     (let (new_id, f1) = override_id overrides f;
          cloned = \<lparr> ent_id = new_id, ent_type = override_type overrides (ent_type entity),
                     components = deepClone_record (components entity) \<rparr>
      in case override_components tn overrides (components cloned) of
           Inl e \<Rightarrow> (Inl e, f1)
         | Inr comps \<Rightarrow>
             (validated ClonedEntityValidationFailed f1 (cloned\<lparr> components := comps \<rparr>), f1))"

text \<open>
  Concrete input: the template \<open>base\<close> has an inventory whose \<open>items\<close> is an array, and
  the template \<open>kid\<close>, which extends it, gives \<open>items\<close> as an object.
\<close>

definition base_kid_factory :: EntityFactory where
  "base_kid_factory =
     snd (registerFromJSON
            [tpl ''base'' None [(''inv'', JObj [(''items'', JArr [JNum 1, JNum 2] [])])],
             tpl ''kid'' (Some ''base'') [(''inv'', JObj [(''items'', JObj [(''a'', JNum 1)])])]]
            (new_EntityFactory None))"

text \<open>
  The deep merge as the specification words it: the child's field wins, two objects are
  merged field by field, anything else (arrays, primitives) is replaced by the child's
  value.
\<close>

fun deep_merge_spec :: "jsval \<Rightarrow> jsval \<Rightarrow> jsval"
  and deep_merge_spec_fields :: "(string \<times> jsval) list \<Rightarrow> (string \<times> jsval) list \<Rightarrow> (string \<times> jsval) list"
where
  "deep_merge_spec parent child =
     (case child of
        JObj cf \<Rightarrow> (case parent of JObj pf \<Rightarrow> JObj (deep_merge_spec_fields pf cf) | _ \<Rightarrow> child)
      | _ \<Rightarrow> child)"
| "deep_merge_spec_fields pf [] = pf"
| "deep_merge_spec_fields pf (entry # rest) =
     deep_merge_spec_fields
       (AList.update (fst entry)
          (case map_of pf (fst entry) of
             None \<Rightarrow> snd entry
           | Some p \<Rightarrow> deep_merge_spec p (snd entry)) pf)
       rest"

text \<open>
  Plain data, such as \<open>JSON.parse\<close> produces: arrays without named properties, objects
  with distinct keys.
\<close>

fun plain :: "jsval \<Rightarrow> bool" where
  "plain (JArr es ps) = (ps = [] \<and> (\<forall>e\<in>set es. plain e))"
| "plain (JObj fs) = (distinct (map fst fs) \<and> (\<forall>e\<in>set fs. plain (snd e)))"
| "plain v = True"

definition plain_record :: "(string \<times> jsval) list \<Rightarrow> bool" where
  "plain_record fs \<longleftrightarrow> distinct (map fst fs) \<and> (\<forall>e\<in>set fs. plain (snd e))"

text \<open>
  \<open>mergeable target source\<close>: nowhere does \<open>source\<close> give an object where \<open>target\<close> (with
  \<open>current || {}\<close> taken at each level, \<open>or_empty\<close>) holds an array.  At the top level of a
  component bag a \<open>null\<close> component must not meet an object or array either.
\<close>

definition or_empty :: "jsval \<Rightarrow> jsval" where
  "or_empty v = (if truthy v then v else JObj [])"

fun mergeable :: "jsval \<Rightarrow> jsval \<Rightarrow> bool" where
  "mergeable target source =
     (case source of
        JObj sf \<Rightarrow>
          (case target of
             JArr es ps \<Rightarrow> False
           | JObj tf \<Rightarrow> (\<forall>e\<in>set sf. mergeable (or_empty (field tf (fst e))) (snd e))
           | _ \<Rightarrow> True)
      | _ \<Rightarrow> True)"

definition component_mergeable :: "jsval \<Rightarrow> jsval \<Rightarrow> bool" where
  "component_mergeable current v \<longleftrightarrow>
     mergeable current v \<and> (v = JNull \<longrightarrow> \<not> (truthy current \<and> typeof_object current))"

definition mergeable_record :: "(string \<times> jsval) list \<Rightarrow> (string \<times> jsval) list \<Rightarrow> bool" where
  "mergeable_record base override \<longleftrightarrow>
     (\<forall>e\<in>set override. component_mergeable (field base (fst e)) (snd e))"

text \<open>The value that the specified merge stores under the key of an entry.\<close>

definition spec_entry :: "(string \<times> jsval) list \<Rightarrow> string \<times> jsval \<Rightarrow> jsval" where
  "spec_entry rf e =
     (case map_of rf (fst e) of None \<Rightarrow> snd e | Some p \<Rightarrow> deep_merge_spec p (snd e))"

text \<open>
  The deep merge of a chain's component bags from root to leaf as specified, and the
  chains on which no level meets the conflicts above.  The fuel bounds the length of the
  chain.
\<close>

fun chain_merge_spec :: "nat \<Rightarrow> EntityFactory \<Rightarrow> EntityTemplate \<Rightarrow> (string \<times> jsval) list option" where
  "chain_merge_spec 0 f template = None"
| "chain_merge_spec (Suc n) f template =
     (if \<not> truthy_string (tpl_extends template) then Some (tpl_components template)
      else (case map_of (templates f) (the (tpl_extends template)) of
              None \<Rightarrow> None
            | Some parent \<Rightarrow>
                map_option (\<lambda>merged. deep_merge_spec_fields merged (tpl_components template))
                  (chain_merge_spec n f parent)))"

fun chain_mergeable :: "nat \<Rightarrow> EntityFactory \<Rightarrow> EntityTemplate \<Rightarrow> bool" where
  "chain_mergeable 0 f template = False"
| "chain_mergeable (Suc n) f template =
     (plain_record (tpl_components template) \<and>
      (if \<not> truthy_string (tpl_extends template) then True
       else (case map_of (templates f) (the (tpl_extends template)) of
               None \<Rightarrow> False
             | Some parent \<Rightarrow>
                 chain_mergeable n f parent \<and>
                 (case chain_merge_spec n f parent of
                    None \<Rightarrow> False
                  | Some merged \<Rightarrow> mergeable_record merged (tpl_components template)))))"

section \<open>System scheduler (SystemManager)\<close>

datatype SystemPhase = preUpdate | earlyUpdate | update_phase | lateUpdate | postUpdate

text \<open>
  A system is an object with a name, the \<open>enabled\<close> flag, the update frequency and its
  \<open>update\<close> method.  The method works on the world outside the scheduler (entities, bus,
  its own fields), which is a state of type \<open>'w\<close>; it returns the new state and whether it
  threw.  It does not reach the scheduler: registrations, \<open>enabled\<close> flags and
  frequencies stay as they are during a tick.  \<open>initialize\<close> is the hook that \<open>register\<close>
  calls.
\<close>

record 'w System =
  sys_name :: string
  sys_enabled :: bool
  sys_updateFrequency :: nat
  sys_update :: "SystemUpdateContext \<Rightarrow> 'w \<Rightarrow> 'w \<times> bool"
  sys_initialize :: "'w \<Rightarrow> 'w"

record 'w SystemRegistration =
  reg_system :: "'w System"
  reg_phase :: SystemPhase
  reg_lastUpdate :: nat
  reg_updateCount :: nat
  reg_totalTime :: rat

record 'w SystemManager =
  systems :: "(string \<times> 'w SystemRegistration) list"
  sm_tickCount :: nat

definition phases :: "SystemPhase list" where
  "phases = [preUpdate, earlyUpdate, update_phase, lateUpdate, postUpdate]"

definition new_SystemManager :: "'w SystemManager" where
  "new_SystemManager = \<lparr> systems = [], sm_tickCount = 0 \<rparr>"

definition register :: "'w System \<Rightarrow> SystemPhase \<Rightarrow> 'w SystemManager \<Rightarrow> 'w \<Rightarrow> 'w SystemManager \<times> 'w" where
  "register system phase sm w =
     (sm\<lparr> systems :=
            AList.update (sys_name system)
              \<lparr> reg_system = system, reg_phase = phase, reg_lastUpdate = 0,
                reg_updateCount = 0, reg_totalTime = 0 \<rparr> (systems sm) \<rparr>,
      sys_initialize system w)"

text \<open>
  The body of the \<open>for\<close> loop of \<open>updatePhase\<close> for one registration; \<open>now\<close> reads
  \<open>performance.now()\<close> off the world.  \<open>tickCount % 0\<close> is \<open>NaN\<close>, which is not \<open>0\<close>, so a
  system with frequency zero is skipped.
\<close>

definition update_registration ::
  "('w \<Rightarrow> rat) \<Rightarrow> nat \<Rightarrow> SystemUpdateContext \<Rightarrow> 'w SystemRegistration \<Rightarrow> 'w
    \<Rightarrow> 'w SystemRegistration \<times> 'w" where
  "update_registration now tick context registration w =
     (let syst = reg_system registration;
          frequency = sys_updateFrequency syst
      in if frequency = 0 \<or> tick mod frequency \<noteq> 0 then (registration, w)
         else
           let startTime = now w;
               (w', threw) = sys_update syst context w;
               r1 = (if threw then registration
                     else registration\<lparr> reg_updateCount := Suc (reg_updateCount registration) \<rparr>);
               endTime = now w'
           in (r1\<lparr> reg_totalTime := reg_totalTime r1 + (endTime - startTime),
                   reg_lastUpdate := tick \<rparr>, w'))"

text \<open>
  The loop over \<open>systemsInPhase\<close>, given by the names under which the registrations are
  stored; each registration object is updated in place.
\<close>

fun run_systems :: "('w \<Rightarrow> rat) \<Rightarrow> SystemUpdateContext \<Rightarrow> string list \<Rightarrow> 'w SystemManager \<Rightarrow> 'w
    \<Rightarrow> 'w SystemManager \<times> 'w" where
  "run_systems now context [] sm w = (sm, w)"
| "run_systems now context (name # rest) sm w =
     (case map_of (systems sm) name of
        None \<Rightarrow> run_systems now context rest sm w
      | Some registration \<Rightarrow>
          (let (registration', w') =
                 update_registration now (sm_tickCount sm) context registration w
           in run_systems now context rest
                (sm\<lparr> systems := AList.update name registration' (systems sm) \<rparr>) w'))"

definition systemsInPhase :: "SystemPhase \<Rightarrow> 'w SystemManager \<Rightarrow> string list" where
  "systemsInPhase phase sm =
     map fst (filter (\<lambda>(name, reg). reg_phase reg = phase \<and> sys_enabled (reg_system reg))
                (systems sm))"

definition updatePhase :: "('w \<Rightarrow> rat) \<Rightarrow> SystemPhase \<Rightarrow> SystemUpdateContext \<Rightarrow> 'w SystemManager \<Rightarrow> 'w
    \<Rightarrow> 'w SystemManager \<times> 'w" where
  "updatePhase now phase context sm w = run_systems now context (systemsInPhase phase sm) sm w"

definition sm_update :: "('w \<Rightarrow> rat) \<Rightarrow> SystemUpdateContext \<Rightarrow> 'w SystemManager \<Rightarrow> 'w
    \<Rightarrow> 'w SystemManager \<times> 'w" where
  "sm_update now context sm w =
     foldl (\<lambda>(sm', w') phase. updatePhase now phase context sm' w')
       (sm\<lparr> sm_tickCount := Suc (sm_tickCount sm) \<rparr>, w) phases"

subsection \<open>GameWorld.update, the callback of the loop\<close>

record 'w GameWorld =
  paused :: bool
  systemManager :: "'w SystemManager"
  world :: 'w

text \<open>
  \<open>(context) => this.update(context)\<close>.  Nothing in \<open>SystemManager.update\<close> outside the \<open>try\<close>
  block around \<open>syst.update\<close> throws, so the callback reports no throw.
\<close>

definition world_update :: "('w \<Rightarrow> rat) \<Rightarrow> 'w GameWorld GameLoopCallback" where
  "world_update now context gw =
     (if paused gw then (gw, False)
      else (let (sm', w') = sm_update now context (systemManager gw) (world gw)
            in (gw\<lparr> systemManager := sm', world := w' \<rparr>, False)))"

text \<open>
  A system is due in a tick when it is enabled and the tick is a multiple of its
  frequency.  \<open>phase_due\<close> lists the due systems of a phase in registration order, for the
  scheduler's counter as it stands; \<open>due_systems\<close> lists those of the tick that an
  \<open>update\<close> call starts, phase after phase.
\<close>

definition due :: "nat \<Rightarrow> 'w System \<Rightarrow> bool" where
  "due tick s \<longleftrightarrow>
     sys_enabled s \<and> sys_updateFrequency s \<noteq> 0 \<and> tick mod sys_updateFrequency s = 0"

definition phase_due :: "'w SystemManager \<Rightarrow> SystemPhase \<Rightarrow> 'w System list" where
  "phase_due sm phase =
     map (\<lambda>(name, reg). reg_system reg)
       (filter (\<lambda>(name, reg). reg_phase reg = phase \<and> due (sm_tickCount sm) (reg_system reg))
          (systems sm))"

definition due_systems :: "'w SystemManager \<Rightarrow> 'w System list" where
  "due_systems sm = concat (map (phase_due (sm\<lparr> sm_tickCount := Suc (sm_tickCount sm) \<rparr>)) phases)"

text \<open>The updates of a list of systems applied in turn, whatever each of them throws.\<close>

definition apply_updates :: "SystemUpdateContext \<Rightarrow> 'w \<Rightarrow> 'w System list \<Rightarrow> 'w" where
  "apply_updates context w ss = foldl (\<lambda>w s. fst (sys_update s context w)) w ss"

text \<open>What a tick never changes in the scheduler: names, systems, phases and the counter.\<close>

definition static_part :: "'w SystemManager \<Rightarrow> (string \<times> 'w System \<times> SystemPhase) list \<times> nat" where
  "static_part sm =
     (map (\<lambda>(name, reg). (name, reg_system reg, reg_phase reg)) (systems sm), sm_tickCount sm)"

definition system_named :: "'w SystemManager \<Rightarrow> string \<Rightarrow> 'w System" where
  "system_named sm name = reg_system (the (map_of (systems sm) name))"

text \<open>Concrete input: systems that log their name in the world; \<open>A\<close> throws after logging.\<close>

definition logging_system :: "string \<Rightarrow> bool \<Rightarrow> string list System" where
  "logging_system name throws =
     \<lparr> sys_name = name, sys_enabled = True, sys_updateFrequency = 1,
       sys_update = (\<lambda>context w. (w @ [name], throws)), sys_initialize = (\<lambda>w. w) \<rparr>"

definition sample_world :: "string list GameWorld" where
  "sample_world =
     (let (sm1, w1) = register (logging_system ''C'' False) postUpdate new_SystemManager [];
          (sm2, w2) = register (logging_system ''A'' True) preUpdate sm1 w1;
          (sm3, w3) = register (logging_system ''B'' False) preUpdate sm2 w2
      in \<lparr> paused = False, systemManager = sm3, world = w3 \<rparr>)"

section \<open>Properties of the fixed-timestep loop\<close>

lemma fixed_updates_steps:
  assumes "0 < fixedDeltaTime g"
  shows "\<exists>w'. fixed_updates cb g w =
           Some (g\<lparr> accumulator := accumulator g - of_nat (nat \<lfloor>accumulator g / fixedDeltaTime g\<rfloor>) * fixedDeltaTime g,
                    totalTime := totalTime g + of_nat (nat \<lfloor>accumulator g / fixedDeltaTime g\<rfloor>) * fixedDeltaTime g,
                    tickCount := tickCount g + nat \<lfloor>accumulator g / fixedDeltaTime g\<rfloor> \<rparr>, w')"
  using assms
proof (induction "nat \<lfloor>accumulator g / fixedDeltaTime g\<rfloor>" arbitrary: g w)
  case 0
  then have "\<lfloor>accumulator g / fixedDeltaTime g\<rfloor> \<le> 0" by simp
  then have "accumulator g / fixedDeltaTime g < 1" by (simp add: floor_le_iff)
  with 0 have lt: "accumulator g < fixedDeltaTime g" by (simp add: pos_divide_less_eq)
  have "nat \<lfloor>accumulator g / fixedDeltaTime g\<rfloor> = 0" using 0 by simp
  with lt show ?case
    by (subst fixed_updates.simps) simp
next
  case (Suc k)
  let ?T = "fixedDeltaTime g"
  have kpos: "0 < \<lfloor>accumulator g / ?T\<rfloor>" using Suc.hyps(2) by linarith
  then have "1 \<le> accumulator g / ?T" by (simp add: le_floor_iff)
  with Suc.prems have ge: "?T \<le> accumulator g" by (simp add: pos_le_divide_eq)
  let ?g = "g\<lparr> accumulator := accumulator g - ?T, totalTime := totalTime g + ?T,
                 tickCount := Suc (tickCount g) \<rparr>"
  have "(accumulator g - ?T) / ?T = accumulator g / ?T - 1"
    using Suc.prems by (simp add: diff_divide_distrib)
  then have fl: "\<lfloor>accumulator ?g / fixedDeltaTime ?g\<rfloor> = \<lfloor>accumulator g / ?T\<rfloor> - 1"
    by simp
  then have k: "k = nat \<lfloor>accumulator ?g / fixedDeltaTime ?g\<rfloor>"
    using Suc.hyps(2) by linarith
  have T': "0 < fixedDeltaTime ?g" using Suc.prems by simp
  obtain w' where *: "fixed_updates cb ?g (fst (cb \<lparr> ctx_deltaTime = ?T, ctx_totalTime = totalTime g,
                          ctx_tickCount = tickCount g \<rparr> w)) =
      Some (?g\<lparr> accumulator := accumulator ?g - of_nat k * fixedDeltaTime ?g,
                    totalTime := totalTime ?g + of_nat k * fixedDeltaTime ?g,
                    tickCount := tickCount ?g + k \<rparr>, w')"
    using Suc.hyps(1)[OF k T'] k by metis
  have n: "nat \<lfloor>accumulator g / ?T\<rfloor> = Suc k" using Suc.hyps(2) by simp
  show ?case
    apply (subst fixed_updates.simps)
    using ge * n by (simp add: Let_def algebra_simps)
qed

lemma loop_frame:
  assumes "isRunning g" "loop_inv g" "0 \<le> accumulator g"  "0 \<le> d"
  shows "\<exists>g' w'. loop cb (lastTime g + d) g w = Some (g', w') \<and> isRunning g' \<and> loop_inv g'
           \<and> fixedDeltaTime g' = fixedDeltaTime g
           \<and> lastTime g' = lastTime g + d
           \<and> accumulator g' = accumulator g + min d (fixedDeltaTime g * 10) - of_nat (nat \<lfloor>(accumulator g + min d (fixedDeltaTime g * 10)) / fixedDeltaTime g\<rfloor>) * fixedDeltaTime g
           \<and> totalTime g' = totalTime g + of_nat (nat \<lfloor>(accumulator g + min d (fixedDeltaTime g * 10)) / fixedDeltaTime g\<rfloor>) * fixedDeltaTime g
           \<and> tickCount g' = tickCount g + nat \<lfloor>(accumulator g + min d (fixedDeltaTime g * 10)) / fixedDeltaTime g\<rfloor>"
proof -
  let ?g3 = "g\<lparr> animationFrameId := Some (rafSeq g), rafSeq := Suc (rafSeq g), lastTime := lastTime g + d,
       accumulator := accumulator g + min d (maxAccumulator g) \<rparr>"
  have T: "0 < fixedDeltaTime ?g3" using assms by (simp add: loop_inv_def)
  from fixed_updates_steps[OF T, of cb w] obtain w' where
    "fixed_updates cb ?g3 w = Some (?g3\<lparr> accumulator := accumulator ?g3 - of_nat (nat \<lfloor>accumulator ?g3 / fixedDeltaTime ?g3\<rfloor>) * fixedDeltaTime ?g3,
                    totalTime := totalTime ?g3 + of_nat (nat \<lfloor>accumulator ?g3 / fixedDeltaTime ?g3\<rfloor>) * fixedDeltaTime ?g3,
                    tickCount := tickCount ?g3 + nat \<lfloor>accumulator ?g3 / fixedDeltaTime ?g3\<rfloor> \<rparr>, w')"
    by blast
  then show ?thesis using assms
    by (simp add: loop_def Let_def update_fps_def loop_inv_def)
qed







lemma loop_inv_new:
  assumes "new_GameLoop fps = Some g" "0 < fps"
  shows "loop_inv g \<and> \<not> isRunning g"
  using assms by (auto simp: new_GameLoop_def loop_inv_def split: if_splits)



text \<open>
  Claim C10.  \<open>start\<close> on a running loop changes nothing; \<open>start\<close> on a stopped loop
  (also one that ran before and was stopped) returns with \<open>tickCount\<close>, \<open>totalTime\<close> and
  the accumulator at zero, so a restart does not keep the counters of the previous run.
\<close>

theorem start_resets_counters:
  "(isRunning g \<longrightarrow> start cb now g w = Some (g, w)) \<and>
   (\<not> isRunning g \<and> loop_inv g \<longrightarrow>
      (\<exists>g'. start cb now g w = Some (g', w) \<and> isRunning g' \<and> accumulator g' = 0
            \<and> getTickCount g' = 0 \<and> getTotalTime g' = 0)) \<and>
   (loop_inv g \<longrightarrow>
      (\<exists>g'. start cb now (stop g) w = Some (g', w) \<and> isRunning g' \<and> accumulator g' = 0
            \<and> getTickCount g' = 0 \<and> getTotalTime g' = 0))"
proof -
  have fresh: "\<exists>g'. start cb now h w = Some (g', w) \<and> isRunning g' \<and> accumulator g' = 0
            \<and> getTickCount g' = 0 \<and> getTotalTime g' = 0"
    if h: "\<not> isRunning h" "loop_inv h" for h
  proof -
    let ?h = "h\<lparr> isRunning := True, lastTime := now, accumulator := 0, totalTime := 0,
                 tickCount := 0, frameCount := 0, fpsLastUpdate := now,
                 animationFrameId := Some (rafSeq h), rafSeq := Suc (rafSeq h),
                 lastTime := now, accumulator := 0 + min (now - now) (maxAccumulator h) \<rparr>"
    have T: "0 < fixedDeltaTime h" and m: "0 \<le> maxAccumulator h"
      using h(2) by (simp_all add: loop_inv_def)
    have "fixed_updates cb ?h w = Some (?h, w)"
      using T m by (subst fixed_updates.simps) simp
    then show ?thesis using h(1) T m
      by (simp add: start_def loop_def Let_def update_fps_def getTickCount_def getTotalTime_def)
  qed
  have "loop_inv g \<Longrightarrow> loop_inv (stop g)" by (simp add: loop_inv_def stop_def)
  moreover have "\<not> isRunning (stop g)" by (simp add: stop_def)
  ultimately show ?thesis using fresh[of g] fresh[of "stop g"] by (auto simp: start_def)
qed

theorem start_resets_counters_witness:
  "start (\<lambda>c w. (w, False)) 7 sample_loop () = Some (sample_loop, ()) \<and>
   (\<exists>g'. start (\<lambda>c w. (w, False)) 7 (stop sample_loop) () = Some (g', ()) \<and> isRunning g'
          \<and> accumulator g' = 0 \<and> getTickCount g' = 0 \<and> getTotalTime g' = 0) \<and>
   (\<exists>g'. start (\<lambda>c w. (w, False)) 7 (sample_loop\<lparr> isRunning := False, tickCount := 4 \<rparr>) ()
            = Some (g', ()) \<and> isRunning g'
          \<and> accumulator g' = 0 \<and> getTickCount g' = 0 \<and> getTotalTime g' = 0)"
proof -
  have 1: "isRunning sample_loop" by (simp add: sample_loop_def)
  have 2: "loop_inv sample_loop" by (simp add: sample_loop_def loop_inv_def)
  have 3: "\<not> isRunning (sample_loop\<lparr> isRunning := False, tickCount := 4 \<rparr>)
           \<and> loop_inv (sample_loop\<lparr> isRunning := False, tickCount := 4 \<rparr>)"
    by (simp add: sample_loop_def loop_inv_def)
  show ?thesis
    using start_resets_counters[of sample_loop "\<lambda>c w. (w, False)" 7 "()"]
      start_resets_counters[of "sample_loop\<lparr> isRunning := False, tickCount := 4 \<rparr>" "\<lambda>c w. (w, False)" 7 "()"]
      1 2 3
    by blast
qed

section \<open>Properties of the event bus\<close>

lemma sort_key_snoc:
  fixes f :: "'a \<Rightarrow> int"
  assumes "sorted (map f xs)"
  shows "sort_key f (xs @ [x]) = filter (\<lambda>y. f y \<le> f x) xs @ x # filter (\<lambda>y. f x < f y) xs"
  using assms
proof (induction xs)
  case Nil
  then show ?case by simp
next
  case (Cons a xs)
  then have IH: "sort_key f (xs @ [x]) = filter (\<lambda>y. f y \<le> f x) xs @ x # filter (\<lambda>y. f x < f y) xs"
    and le: "\<forall>y\<in>set xs. f a \<le> f y" by simp_all
  show ?case
  proof (cases "f a \<le> f x")
    case True
    have "\<forall>y\<in>set (filter (\<lambda>y. f y \<le> f x) xs @ x # filter (\<lambda>y. f x < f y) xs). f a \<le> f y"
      using le True by auto
    then have "insort_key f a (filter (\<lambda>y. f y \<le> f x) xs @ x # filter (\<lambda>y. f x < f y) xs)
             = a # (filter (\<lambda>y. f y \<le> f x) xs @ x # filter (\<lambda>y. f x < f y) xs)"
      by (rule insort_is_Cons)
    then show ?thesis using True IH by simp
  next
    case False
    then have lt: "f x < f a" by simp
    with le have all: "\<forall>y\<in>set xs. f x < f y" by auto
    then have 1: "filter (\<lambda>y. f y \<le> f x) xs = []" by (auto simp: filter_empty_conv)
    have 2: "filter (\<lambda>y. f x < f y) xs = xs" using all by simp
    have "insort_key f a xs = a # xs" using le by (rule insort_is_Cons)
    then show ?thesis using lt IH 1 2 by simp
  qed
qed

lemma priority_ordered_sorted:
  "priority_ordered subs \<Longrightarrow> sorted (map (\<lambda>s. - sub_priority s) subs)"
  unfolding priority_ordered_def
  by (induction subs) (auto simp: fires_before_def)

lemma priority_ordered_add:
  assumes "priority_ordered subs" "\<forall>s\<in>set subs. sub_ref s < sub_ref x"
  shows "priority_ordered (sort_by_priority (subs @ [x]))"
proof -
  have "sort_by_priority (subs @ [x])
        = filter (\<lambda>y. - sub_priority y \<le> - sub_priority x) subs @ x # filter (\<lambda>y. - sub_priority x < - sub_priority y) subs"
    unfolding sort_by_priority_def using priority_ordered_sorted[OF assms(1)] by (rule sort_key_snoc)
  moreover have "sorted_wrt fires_before (filter (\<lambda>y. - sub_priority y \<le> - sub_priority x) subs @ x # filter (\<lambda>y. - sub_priority x < - sub_priority y) subs)"
    using assms unfolding priority_ordered_def
    by (auto simp: sorted_wrt_append sorted_wrt_filter fires_before_def)
  ultimately show ?thesis by (simp add: priority_ordered_def)
qed

lemma set_remove_first: "set (remove_first p xs) \<subseteq> set xs"
  by (induction xs) auto

lemma sorted_wrt_remove_first: "sorted_wrt R xs \<Longrightarrow> sorted_wrt R (remove_first p xs)"
proof (induction xs)
  case Nil
  then show ?case by simp
next
  case (Cons a xs)
  then show ?case using set_remove_first[of p xs] by auto
qed


lemma bus_inv_add_subscription:
  assumes "bus_inv b"
  shows "bus_inv (fst (add_subscription is_once t cb p b))"
proof -
  let ?old = "case map_of (subscriptions b) t of Some l \<Rightarrow> l | None \<Rightarrow> []"
  let ?new = "\<lparr> sub_callback = cb, sub_priority = p, sub_once = is_once, sub_ref = nextRef b \<rparr>"
  have old: "priority_ordered ?old \<and> (\<forall>s\<in>set ?old. sub_ref s < nextRef b)"
    using assms by (auto simp: bus_inv_def priority_ordered_def split: option.splits)
  then have ord: "priority_ordered (sort_by_priority (?old @ [?new]))"
    by (intro priority_ordered_add) simp_all
  have refs: "\<forall>s\<in>set (sort_by_priority (?old @ [?new])). sub_ref s < Suc (nextRef b)"
    using old by (auto simp: sort_by_priority_def less_Suc_eq)
  have m: "map_of (subscriptions (fst (add_subscription is_once t cb p b)))
           = (map_of (subscriptions b))(t \<mapsto> sort_by_priority (?old @ [?new]))"
    by (auto simp: add_subscription_def Let_def update_conv' split: option.splits)
  have n: "nextRef (fst (add_subscription is_once t cb p b)) = Suc (nextRef b)"
    by (simp add: add_subscription_def Let_def)
  show ?thesis
    unfolding bus_inv_def m n using assms ord refs
    by (auto simp: bus_inv_def less_Suc_eq)
qed

lemma subs_ok_remove_first:
  assumes "priority_ordered subs \<and> (\<forall>s\<in>set subs. sub_ref s < n)"
  shows "priority_ordered (remove_first p subs) \<and> (\<forall>s\<in>set (remove_first p subs). sub_ref s < n)"
  using assms set_remove_first[of p subs]
  by (auto simp: priority_ordered_def sorted_wrt_remove_first)

lemma bus_inv_unsubscribe:
  assumes "bus_inv b"
  shows "bus_inv (unsubscribe t cb b)"
proof (cases "map_of (subscriptions b) t")
  case None
  then show ?thesis using assms by (simp add: unsubscribe_def)
next
  case (Some subs)
  then have "priority_ordered subs \<and> (\<forall>s\<in>set subs. sub_ref s < nextRef b)"
    using assms by (simp add: bus_inv_def)
  from subs_ok_remove_first[OF this, of "\<lambda>s. sub_callback s = cb"] show ?thesis
    using assms Some by (auto simp: bus_inv_def unsubscribe_def update_conv')
qed

lemma bus_inv_remove_subscription:
  assumes "bus_inv b"
  shows "bus_inv (remove_subscription t r b)"
proof (cases "map_of (subscriptions b) t")
  case None
  then show ?thesis using assms
    by (auto simp: bus_inv_def remove_subscription_def map_of_map_entry)
next
  case (Some subs)
  then have "priority_ordered subs \<and> (\<forall>s\<in>set subs. sub_ref s < nextRef b)"
    using assms by (simp add: bus_inv_def)
  from subs_ok_remove_first[OF this, of "\<lambda>s. sub_ref s = r"] show ?thesis
    using assms Some by (auto simp: bus_inv_def remove_subscription_def map_of_map_entry)
qed

lemma bus_inv_fields:
  "bus_inv (b\<lparr> calls := c \<rparr>) = bus_inv b"
  "bus_inv (b\<lparr> collected := e \<rparr>) = bus_inv b"
  "bus_inv (b\<lparr> eventHistory := h \<rparr>) = bus_inv b"
  "bus_inv (b\<lparr> clock := k \<rparr>) = bus_inv b"
  by (simp_all add: bus_inv_def)

lemma bus_inv_nextRef: "bus_inv b \<Longrightarrow> bus_inv (b\<lparr> nextRef := Suc (nextRef b) \<rparr>)"
  by (auto simp: bus_inv_def less_Suc_eq)

lemma bus_inv_push_history: "bus_inv (push_history e b) = bus_inv b"
  by (simp add: push_history_def Let_def bus_inv_def)

lemma bus_inv_exec:
  assumes "keeps_inv em"
  shows "bus_inv b \<Longrightarrow> exec em body b = Some (b', t) \<Longrightarrow> bus_inv b'"
proof (induction body arbitrary: b)
  case Nil
  then show ?case by simp
next
  case (Cons a rest)
  show ?case
  proof (cases a)
    case (Emit ty d src)
    with Cons.prems obtain b1 where e: "em ty d src b = Some b1" and r: "exec em rest b1 = Some (b', t)"
      by (auto split: option.splits)
    from assms Cons.prems(1) e have "bus_inv b1" unfolding keeps_inv_def by blast
    then show ?thesis using r by (rule Cons.IH)
  next
    case (Subscribe ty cb p)
    with Cons.prems have r: "exec em rest (fst (subscribe ty cb p b)) = Some (b', t)" by simp
    have "bus_inv (fst (subscribe ty cb p b))"
      unfolding subscribe_def using Cons.prems(1) by (rule bus_inv_add_subscription)
    then show ?thesis using r by (rule Cons.IH)
  next
    case (Once ty cb p)
    with Cons.prems have r: "exec em rest (fst (once ty cb p b)) = Some (b', t)" by simp
    have "bus_inv (fst (once ty cb p b))"
      unfolding once_def using Cons.prems(1) by (rule bus_inv_add_subscription)
    then show ?thesis using r by (rule Cons.IH)
  next
    case (Unsubscribe ty cb)
    with Cons.prems have r: "exec em rest (unsubscribe ty cb b) = Some (b', t)" by simp
    have "bus_inv (unsubscribe ty cb b)" using Cons.prems(1) by (rule bus_inv_unsubscribe)
    then show ?thesis using r by (rule Cons.IH)
  next
    case Throw
    with Cons.prems show ?thesis by simp
  qed
qed

lemma bus_inv_invoke:
  assumes "keeps_inv em" "bus_inv b" "invoke em P sub event b = Some b'"
  shows "bus_inv b'"
proof (cases "sub_callback sub")
  case (Handler h)
  with assms(3) obtain t where "exec em (P h) (b\<lparr> calls := calls b @ [(sub, event)] \<rparr>) = Some (b', t)"
    by (auto simp: invoke_def Let_def)
  moreover have "bus_inv (b\<lparr> calls := calls b @ [(sub, event)] \<rparr>)"
    using assms(2) by (simp add: bus_inv_fields)
  ultimately show ?thesis using bus_inv_exec[OF assms(1)] by blast
next
  case Collector
  with assms(2,3) show ?thesis by (auto simp: invoke_def Let_def bus_inv_fields)
qed

lemma bus_inv_dispatch:
  assumes "keeps_inv em"
  shows "bus_inv b \<Longrightarrow> dispatch em P ty event subs b = Some b' \<Longrightarrow> bus_inv b'"
proof (induction subs arbitrary: b)
  case Nil
  then show ?case by simp
next
  case (Cons sub rest)
  from Cons.prems(2) obtain b1 where i: "invoke em P sub event b = Some b1"
    and r: "dispatch em P ty event rest
              (if sub_once sub then remove_subscription ty (sub_ref sub) b1 else b1) = Some b'"
    by (auto split: option.splits)
  have "bus_inv b1" using assms Cons.prems(1) i by (rule bus_inv_invoke)
  then have "bus_inv (if sub_once sub then remove_subscription ty (sub_ref sub) b1 else b1)"
    by (simp add: bus_inv_remove_subscription)
  then show ?case using r by (rule Cons.IH)
qed

lemma keeps_inv_emit: "keeps_inv (emit P n)"
proof (induction n)
  case 0
  show ?case by (simp add: keeps_inv_def)
next
  case (Suc n)
  show ?case
    unfolding keeps_inv_def
  proof (intro allI impI)
    fix t d s b b'
    assume inv: "bus_inv b" and e: "emit P (Suc n) t d s b = Some b'"
    let ?ev = "\<lparr> ev_type = t, ev_data = d, ev_timestamp = clock b, ev_source = s, ev_ref = nextRef b \<rparr>"
    let ?b1 = "push_history ?ev (b\<lparr> nextRef := Suc (nextRef b) \<rparr>)"
    have b1: "bus_inv ?b1" using inv by (simp add: bus_inv_push_history bus_inv_nextRef)
    from e have "b' = ?b1 \<or> (\<exists>subs. dispatch (emit P n) P t ?ev subs ?b1 = Some b')"
      by (auto simp: Let_def split: option.splits if_splits)
    then show "bus_inv b'" using b1 bus_inv_dispatch[OF Suc] by blast
  qed
qed


lemma bus_inv_executeCommand:
  assumes "bus_inv b" "executeCommand P n c a pl b = Some (b', res)"
  shows "bus_inv b'"
proof -
  let ?b1 = "fst (subscribe ''*'' Collector 0 (b\<lparr> collected := [] \<rparr>))"
  have 1: "bus_inv ?b1"
    unfolding subscribe_def using assms(1) by (intro bus_inv_add_subscription) (simp add: bus_inv_fields)
  from assms(2) obtain b2 r where e: "emit P n ''command:executed'' (CommandData c a pl) None ?b1 = Some b2"
    and b': "b' = remove_subscription ''*'' r b2"
    by (auto simp: executeCommand_def Let_def split: prod.splits option.splits)
  from keeps_inv_emit[of P n] 1 e have "bus_inv b2" unfolding keeps_inv_def by blast
  then show ?thesis unfolding b' by (rule bus_inv_remove_subscription)
qed

lemma reachable_bus_inv: "reachable P b \<Longrightarrow> bus_inv b"
proof (induction rule: reachable.induct)
  case r_new
  show ?case by (simp add: bus_inv_def new_EventBus_def)
next
  case (r_subscribe b t cb p)
  then show ?case unfolding subscribe_def by (intro bus_inv_add_subscription)
next
  case (r_once b t cb p)
  then show ?case unfolding once_def by (intro bus_inv_add_subscription)
next
  case (r_unsubscribe b t cb)
  then show ?case by (intro bus_inv_unsubscribe)
next
  case (r_closure b t r)
  then show ?case by (intro bus_inv_remove_subscription)
next
  case (r_emit b n t d s b')
  then show ?case using keeps_inv_emit[of P n] unfolding keeps_inv_def by blast
next
  case (r_clear b)
  then show ?case by (simp add: bus_inv_def clear_def)
next
  case (r_clearHistory b)
  then show ?case by (simp add: bus_inv_def clearHistory_def)
next
  case (r_executeCommand b n c a pl b' res)
  then show ?case using bus_inv_executeCommand by blast
next
  case (r_clock b k)
  then show ?case by (simp add: bus_inv_fields)
qed

lemma later_refl: "later b b"
  by (simp add: later_def)

lemma later_trans: "later a b \<Longrightarrow> later b c \<Longrightarrow> later a c"
  unfolding later_def by (elim conjE exE) (force)

lemma later_add_subscription: "later b (fst (add_subscription o' t cb p b))"
  by (simp add: later_def add_subscription_def Let_def)

lemma later_unsubscribe: "later b (unsubscribe t cb b)"
  by (simp add: later_def unsubscribe_def split: option.splits)

lemma later_exec:
  assumes "fresh_refs em"
  shows "exec em body b = Some (b', t) \<Longrightarrow> later b b'"
proof (induction body arbitrary: b)
  case Nil
  then show ?case by (simp add: later_refl)
next
  case (Cons a rest)
  show ?case
  proof (cases a)
    case (Emit ty d src)
    with Cons.prems obtain b1 where e: "em ty d src b = Some b1" and r: "exec em rest b1 = Some (b', t)"
      by (auto split: option.splits)
    from assms e have "later b b1" unfolding fresh_refs_def by blast
    then show ?thesis using Cons.IH[OF r] by (rule later_trans)
  next
    case (Subscribe ty cb p)
    with Cons.prems have r: "exec em rest (fst (subscribe ty cb p b)) = Some (b', t)" by simp
    show ?thesis using later_add_subscription[of b False ty cb p] Cons.IH[OF r]
      unfolding subscribe_def by (rule later_trans)
  next
    case (Once ty cb p)
    with Cons.prems have r: "exec em rest (fst (once ty cb p b)) = Some (b', t)" by simp
    show ?thesis using later_add_subscription[of b True ty cb p] Cons.IH[OF r]
      unfolding once_def by (rule later_trans)
  next
    case (Unsubscribe ty cb)
    with Cons.prems have r: "exec em rest (unsubscribe ty cb b) = Some (b', t)" by simp
    show ?thesis using later_unsubscribe[of b ty cb] Cons.IH[OF r] by (rule later_trans)
  next
    case Throw
    with Cons.prems show ?thesis by (simp add: later_refl)
  qed
qed

lemma invoke_calls:
  assumes "fresh_refs em" "invoke em P sub event b = Some b'"
  shows "nextRef b \<le> nextRef b' \<and>
         (\<exists>cs. calls b' = calls b @ (sub, event) # cs \<and> (\<forall>c\<in>set cs. nextRef b \<le> ev_ref (snd c)))"
proof (cases "sub_callback sub")
  case (Handler h)
  with assms(2) obtain t where "exec em (P h) (b\<lparr> calls := calls b @ [(sub, event)] \<rparr>) = Some (b', t)"
    by (auto simp: invoke_def Let_def)
  from later_exec[OF assms(1) this] show ?thesis by (auto simp: later_def)
next
  case Collector
  with assms(2) show ?thesis by (auto simp: invoke_def Let_def)
qed

lemma dispatch_calls:
  assumes "fresh_refs em"
  shows "ev_ref event < nextRef b \<Longrightarrow> dispatch em P ty event subs b = Some b' \<Longrightarrow>
         nextRef b \<le> nextRef b' \<and>
         (\<exists>cs. calls b' = calls b @ cs \<and>
               filter (\<lambda>c. ev_ref (snd c) = ev_ref event) cs = map (\<lambda>s. (s, event)) subs \<and>
               (\<forall>c\<in>set cs. ev_ref event \<le> ev_ref (snd c)))"
proof (induction subs arbitrary: b)
  case Nil
  then show ?case by simp
next
  case (Cons sub rest)
  let ?b1' = "\<lambda>b1. if sub_once sub then remove_subscription ty (sub_ref sub) b1 else b1"
  from Cons.prems(2) obtain b1 where i: "invoke em P sub event b = Some b1"
    and r: "dispatch em P ty event rest (?b1' b1) = Some b'"
    by (auto split: option.splits)
  from invoke_calls[OF assms i] obtain cs1 where n1: "nextRef b \<le> nextRef b1"
    and c1: "calls b1 = calls b @ (sub, event) # cs1"
    and f1: "\<forall>c\<in>set cs1. nextRef b \<le> ev_ref (snd c)" by blast
  have same: "nextRef (?b1' b1) = nextRef b1" "calls (?b1' b1) = calls b1"
    by (simp_all add: remove_subscription_def)
  have "ev_ref event < nextRef (?b1' b1)" using Cons.prems(1) n1 same by simp
  from Cons.IH[OF this r] obtain cs2 where n2: "nextRef b1 \<le> nextRef b'"
    and c2: "calls b' = calls b1 @ cs2"
    and m2: "filter (\<lambda>c. ev_ref (snd c) = ev_ref event) cs2 = map (\<lambda>s. (s, event)) rest"
    and f2: "\<forall>c\<in>set cs2. ev_ref event \<le> ev_ref (snd c)"
    unfolding same by blast
  have none: "filter (\<lambda>c. ev_ref (snd c) = ev_ref event) cs1 = []"
    using f1 Cons.prems(1) by (auto simp: filter_empty_conv)
  have "calls b' = calls b @ ((sub, event) # cs1 @ cs2)" using c1 c2 by simp
  moreover have "filter (\<lambda>c. ev_ref (snd c) = ev_ref event) ((sub, event) # cs1 @ cs2)
                 = map (\<lambda>s. (s, event)) (sub # rest)"
    using none m2 by simp
  moreover have "\<forall>c\<in>set ((sub, event) # cs1 @ cs2). ev_ref event \<le> ev_ref (snd c)"
    using f1 f2 Cons.prems(1) by auto
  ultimately show ?case using n1 n2 by (intro conjI exI[of _ "(sub, event) # cs1 @ cs2"]) simp_all
qed

lemma emit_calls:
  assumes "fresh_refs (emit P n)" "emit P (Suc n) ty d src b = Some b'"
  shows "nextRef b < nextRef b' \<and>
         (\<exists>cs. calls b' = calls b @ cs \<and>
            filter (\<lambda>c. ev_ref (snd c) = nextRef b) cs
              = map (\<lambda>s. (s, \<lparr> ev_type = ty, ev_data = d, ev_timestamp = clock b,
                                ev_source = src, ev_ref = nextRef b \<rparr>))
                    (current_subscribers ty b) \<and>
            (\<forall>c\<in>set cs. nextRef b \<le> ev_ref (snd c)))"
proof -
  let ?ev = "\<lparr> ev_type = ty, ev_data = d, ev_timestamp = clock b, ev_source = src, ev_ref = nextRef b \<rparr>"
  let ?b1 = "push_history ?ev (b\<lparr> nextRef := Suc (nextRef b) \<rparr>)"
  have b1: "nextRef ?b1 = Suc (nextRef b)" "calls ?b1 = calls b" "subscriptions ?b1 = subscriptions b"
    by (simp_all add: push_history_def Let_def)
  show ?thesis
  proof (cases "current_subscribers ty b = []")
    case True
    then have "b' = ?b1" using assms(2)
      by (auto simp: Let_def current_subscribers_def b1 split: option.splits)
    then show ?thesis using True b1 by simp
  next
    case False
    then have d: "dispatch (emit P n) P ty ?ev (current_subscribers ty b) ?b1 = Some b'"
      using assms(2) by (auto simp: Let_def current_subscribers_def b1 split: option.splits)
    have "ev_ref ?ev < nextRef ?b1" by (simp add: b1)
    from dispatch_calls[OF assms(1) this d] show ?thesis unfolding b1 by auto
  qed
qed

lemma fresh_refs_emit: "fresh_refs (emit P n)"
proof (induction n)
  case 0
  show ?case by (simp add: fresh_refs_def)
next
  case (Suc n)
  show ?case unfolding fresh_refs_def later_def
    using emit_calls[OF Suc] by (meson less_imp_le)
qed


text \<open>
  More fuel never changes what an emit returns, and with handlers that do not emit one
  level of nesting is enough for every emit to return.
\<close>

lemma exec_without_emit:
  "\<not> list_ex is_Emit body \<Longrightarrow> \<exists>b' t. exec em body b = Some (b', t)"
proof (induction body arbitrary: b)
  case Nil
  show ?case by (simp add: exI[of _ False])
next
  case (Cons a rest)
  then show ?case by (cases a) (auto simp: exI[of _ True])
qed

lemma invoke_without_emit:
  assumes "no_reemission P"
  shows "\<exists>b'. invoke em P sub event b = Some b'"
proof (cases "sub_callback sub")
  case (Handler h)
  from assms have "\<not> list_ex is_Emit (P h)" by (simp add: no_reemission_def)
  from exec_without_emit[OF this, of em "b\<lparr> calls := calls b @ [(sub, event)] \<rparr>"]
  show ?thesis using Handler by (auto simp: invoke_def Let_def)
next
  case Collector
  then show ?thesis by (simp add: invoke_def Let_def)
qed

lemma dispatch_without_emit:
  assumes "no_reemission P"
  shows "\<exists>b'. dispatch em P ty event subs b = Some b'"
proof (induction subs arbitrary: b)
  case Nil
  show ?case by simp
next
  case (Cons sub rest)
  from invoke_without_emit[OF assms, of em sub event b]
  obtain b1 where "invoke em P sub event b = Some b1" by blast
  then show ?case using Cons.IH by simp
qed

lemma emit_without_reemission:
  assumes "no_reemission P"
  shows "\<exists>b'. emit P (Suc n) ty d src b = Some b'"
  using dispatch_without_emit[OF assms]
  by (auto simp: Let_def split: option.splits)

lemma exec_more_fuel:
  assumes "extends_emitter em em'"
  shows "exec em body b = Some r \<Longrightarrow> exec em' body b = Some r"
proof (induction body arbitrary: b)
  case Nil
  then show ?case by simp
next
  case (Cons a rest)
  show ?case
  proof (cases a)
    case (Emit t d s)
    with Cons.prems obtain b1 where e: "em t d s b = Some b1" and r: "exec em rest b1 = Some r"
      by (auto split: option.splits)
    from assms e have "em' t d s b = Some b1" unfolding extends_emitter_def by blast
    with Cons.IH[OF r] Emit show ?thesis by simp
  qed (use Cons in auto)
qed

lemma invoke_more_fuel:
  assumes "extends_emitter em em'" "invoke em P sub event b = Some b'"
  shows "invoke em' P sub event b = Some b'"
proof (cases "sub_callback sub")
  case (Handler h)
  with assms(2) obtain t where "exec em (P h) (b\<lparr> calls := calls b @ [(sub, event)] \<rparr>) = Some (b', t)"
    by (auto simp: invoke_def Let_def)
  from exec_more_fuel[OF assms(1) this] Handler show ?thesis by (simp add: invoke_def Let_def)
next
  case Collector
  with assms(2) show ?thesis by (simp add: invoke_def Let_def)
qed

lemma dispatch_more_fuel:
  assumes "extends_emitter em em'"
  shows "dispatch em P ty event subs b = Some b' \<Longrightarrow> dispatch em' P ty event subs b = Some b'"
proof (induction subs arbitrary: b)
  case Nil
  then show ?case by simp
next
  case (Cons sub rest)
  from Cons.prems obtain b1 where i: "invoke em P sub event b = Some b1"
    and r: "dispatch em P ty event rest
              (if sub_once sub then remove_subscription ty (sub_ref sub) b1 else b1) = Some b'"
    by (auto split: option.splits)
  from invoke_more_fuel[OF assms i] Cons.IH[OF r] show ?case by simp
qed

lemma emit_more_fuel: "extends_emitter (emit P n) (emit P (Suc n))"
proof (induction n)
  case 0
  show ?case by (simp add: extends_emitter_def)
next
  case (Suc n)
  show ?case
    unfolding extends_emitter_def
  proof (intro allI impI)
    fix t d s b b'
    assume e: "emit P (Suc n) t d s b = Some b'"
    show "emit P (Suc (Suc n)) t d s b = Some b'"
      using e dispatch_more_fuel[OF Suc]
      by (simp add: Let_def split: option.splits if_splits)
  qed
qed

text \<open>
  Claim C6.  On every bus that the operations can produce, an emit that returns has invoked,
  with its event, exactly the subscribers that the event type had when the emit started,
  in the order of that array; and the array is ordered by descending priority, subscribers
  of equal priority in the order of their registration.  Calls made by nested emits carry
  other events.  Where no handler emits, every emit returns.
\<close>

theorem emit_calls_subscribers_in_priority_order:
  assumes "reachable P b"
  shows "(no_reemission P \<longrightarrow> (\<exists>b'. emit P (Suc n) eventType d source b = Some b'))
       \<and> (\<forall>b'. emit P n eventType d source b = Some b' \<longrightarrow>
            (\<exists>event cs. calls b' = calls b @ cs
               \<and> ev_type event = eventType \<and> ev_ref event = nextRef b
               \<and> filter (\<lambda>c. snd c = event) cs
                   = map (\<lambda>s. (s, event)) (current_subscribers eventType b)
               \<and> priority_ordered (current_subscribers eventType b)))"
proof (intro conjI allI impI)
  assume "no_reemission P"
  then show "\<exists>b'. emit P (Suc n) eventType d source b = Some b'"
    by (rule emit_without_reemission)
next
  fix b'
  assume e: "emit P n eventType d source b = Some b'"
  let ?ev = "\<lparr> ev_type = eventType, ev_data = d, ev_timestamp = clock b, ev_source = source,
               ev_ref = nextRef b \<rparr>"
  let ?subs = "current_subscribers eventType b"
  from e obtain m where n: "n = Suc m" by (cases n) simp_all
  from emit_calls[OF fresh_refs_emit, of P m eventType d source b b'] e n
  obtain cs where c: "calls b' = calls b @ cs"
    and f: "filter (\<lambda>c. ev_ref (snd c) = nextRef b) cs = map (\<lambda>s. (s, ?ev)) ?subs"
    by blast
  have "filter (\<lambda>c. snd c = ?ev) cs
        = filter (\<lambda>c. snd c = ?ev) (filter (\<lambda>c. ev_ref (snd c) = nextRef b) cs)"
    by (simp add: conj_commute cong: conj_cong) (rule filter_cong, auto)
  also have "\<dots> = map (\<lambda>s. (s, ?ev)) ?subs"
    unfolding f by (simp add: filter_map comp_def)
  finally have 1: "filter (\<lambda>c. snd c = ?ev) cs = map (\<lambda>s. (s, ?ev)) ?subs" .
  have 2: "priority_ordered ?subs"
    using reachable_bus_inv[OF assms]
    by (auto simp: bus_inv_def current_subscribers_def priority_ordered_def split: option.splits)
  show "\<exists>event cs. calls b' = calls b @ cs
               \<and> ev_type event = eventType \<and> ev_ref event = nextRef b
               \<and> filter (\<lambda>c. snd c = event) cs = map (\<lambda>s. (s, event)) ?subs
               \<and> priority_ordered ?subs"
    using c 1 2 by (intro exI[of _ ?ev] exI[of _ cs]) simp
qed

lemmas bus_eval = subscribe_def once_def add_subscription_def new_EventBus_def sort_by_priority_def
  Let_def push_history_def invoke_def unsubscribe_def remove_subscription_def

theorem emit_calls_subscribers_in_priority_order_witness:
  "\<exists>b' event cs. emit no_handlers 1 ''hit'' EmptyObject None three_subscribers = Some b'
      \<and> calls b' = calls three_subscribers @ cs
      \<and> ev_type event = ''hit'' \<and> ev_ref event = nextRef three_subscribers
      \<and> filter (\<lambda>c. snd c = event) cs
            = map (\<lambda>s. (s, event)) (current_subscribers ''hit'' three_subscribers)
      \<and> priority_ordered (current_subscribers ''hit'' three_subscribers)
      \<and> map sub_callback (current_subscribers ''hit'' three_subscribers)
            = [Handler 2, Handler 1, Handler 3]"
proof -
  have r: "reachable no_handlers three_subscribers"
    unfolding three_subscribers_def by (intro reachable.intros)
  have q: "no_reemission no_handlers"
    by (simp add: no_reemission_def no_handlers_def)
  note at0 = emit_calls_subscribers_in_priority_order[OF r, of 0 "''hit''" EmptyObject None]
  from at0 q obtain b' where e: "emit no_handlers 1 ''hit'' EmptyObject None three_subscribers = Some b'"
    by auto
  note at1 = emit_calls_subscribers_in_priority_order[OF r, of 1 "''hit''" EmptyObject None]
  from at1 e
  obtain event cs where "calls b' = calls three_subscribers @ cs
      \<and> ev_type event = ''hit'' \<and> ev_ref event = nextRef three_subscribers
      \<and> filter (\<lambda>c. snd c = event) cs
            = map (\<lambda>s. (s, event)) (current_subscribers ''hit'' three_subscribers)
      \<and> priority_ordered (current_subscribers ''hit'' three_subscribers)"
    by blast
  moreover have "map sub_callback (current_subscribers ''hit'' three_subscribers)
            = [Handler 2, Handler 1, Handler 3]"
    by (simp add: three_subscribers_def current_subscribers_def bus_eval)
  ultimately show ?thesis using e by (intro exI[of _ b'] exI[of _ event] exI[of _ cs]) simp
qed

text \<open>
  Claim C9.  \<open>clear\<close> leaves no subscription for any event type and does not touch the
  history: \<open>getHistory\<close> answers as before.  \<open>clearHistory\<close> is what empties the history.
\<close>

theorem clear_keeps_history:
  "getSubscriptionCount None (clear b) = 0
   \<and> getSubscriptionCount (Some t) (clear b) = 0
   \<and> getHistory eventType limit (clear b) = getHistory eventType limit b
   \<and> eventHistory (clear b) = eventHistory b
   \<and> getHistory eventType limit (clearHistory b) = []"
  by (simp add: clear_def clearHistory_def getSubscriptionCount_def getHistory_def
        split: option.splits)

text \<open>
  Claim C1 says that the \<open>events\<close> returned by \<open>executeCommand\<close> hold every event emitted
  during the call, the \<open>command:executed\<close> event among them.  On a new bus the call
  returns, for every command, with success and an empty \<open>events\<close> list, although
  \<open>command:executed\<close> was emitted and is in the history: the collecting callback is
  subscribed to the type \<open>*\<close>, and \<open>emit\<close> only looks up the subscribers of the type
  \<open>command:executed\<close>.
\<close>

theorem executeCommand_collects_nothing:
  "\<exists>b'. executeCommand no_handlers 1 command args playerId new_EventBus
           = Some (b', \<lparr> success = True, message = ''Command executed'', events = Some [] \<rparr>)
        \<and> map (\<lambda>e. (ev_type e, ev_data e)) (eventHistory b')
            = [(''command:executed'', CommandData command args playerId)]
        \<and> calls b' = []"
  by (simp add: no_handlers_def executeCommand_def bus_eval)

text \<open>
  Claim C7 says that a \<open>once\<close> callback is invoked exactly one time, also under nested
  emits.  Here handler 1, the \<open>once\<close> subscriber, is invoked twice by a single outer emit:
  once by the emit nested in handler 0, and again from the outer emit's snapshot.
\<close>

theorem once_fires_twice_when_nested:
  "\<exists>b'. emit reemitting_handlers 2 ''hit'' EmptyObject None nested_once_bus = Some b'
        \<and> map (\<lambda>c. (sub_callback (fst c), sub_once (fst c))) (calls b')
            = [(Handler 0, False), (Handler 1, True), (Handler 1, True)]"
  by (simp add: reemitting_handlers_def nested_once_bus_def bus_eval eval_nat_numeral)

section \<open>Properties of the entity store\<close>

lemmas store_eval = add_def updateIndices_def index_add_def set_add_def new_EntityManager_def
  position_field_def field_def Let_def getByType_def getByComponent_def lookup_ids_def
  List.map_filter_def get_def

text \<open>
  Claim C3 says that after any sequence of operations every index holds an id exactly when
  the stored entity with that id has the type, position field or component, also after an
  \<open>add\<close> whose id is already stored.  \<open>add\<close> overwrites the stored entity without taking
  the old one out of the indices (\<open>update\<close> does take it out): after adding an \<open>npc\<close> with a
  position in realm \<open>north\<close> and then an \<open>item\<close> without components under the same id,
  the type index of \<open>npc\<close>, the realm index and the component index still hold the id, and
  \<open>getByType\<close> of \<open>npc\<close> returns the item.
\<close>

theorem add_existing_id_leaves_stale_indices:
  "byType (add item_e1 (add npc_e1 new_EntityManager)) = [(''npc'', [''e1'']), (''item'', [''e1''])]
   \<and> byRealm (add item_e1 (add npc_e1 new_EntityManager)) = [(JStr ''north'', [''e1''])]
   \<and> byComponent (add item_e1 (add npc_e1 new_EntityManager)) = [(''position'', [''e1''])]
   \<and> get ''e1'' (add item_e1 (add npc_e1 new_EntityManager)) = Some item_e1
   \<and> getByType ''npc'' (add item_e1 (add npc_e1 new_EntityManager)) = [item_e1]
   \<and> getByComponent ''position'' (add item_e1 (add npc_e1 new_EntityManager)) = [item_e1]"
  by (simp add: store_eval npc_e1_def item_e1_def)

subsection \<open>The invariant on the other paths\<close>

text \<open>
  \<open>updateIndices\<close> and \<open>removeFromIndices\<close> add and take out exactly the id of their
  entity.  So the invariant holds for the new store and is kept by \<open>add\<close> of an id that is not
  stored, by \<open>remove\<close>, and by \<open>update\<close> when the updates leave the id as it is; after
  \<open>remove\<close> no index holds the removed id.  The overwriting \<open>add\<close> is the one path that
  breaks it.
\<close>

lemma index_ids_add: "index_ids (index_add k i idx) k' = (if k' = k then insert i (index_ids idx k) else index_ids idx k')"
  by (auto simp: index_ids_def index_add_def set_add_def update_conv' split: option.splits)

lemma index_ids_delete: "index_ids (index_delete k i idx) k' = (if k' = k then index_ids idx k - {i} else index_ids idx k')"
  by (auto simp: index_ids_def index_delete_def set_delete_def update_conv' split: option.splits)

lemma index_ids_foldl_add:
  "index_ids (foldl (\<lambda>idx n. index_add n i idx) idx names) k
     = (if k \<in> set names then insert i (index_ids idx k) else index_ids idx k)"
  by (induction names arbitrary: idx) (auto simp: index_ids_add)

lemma index_ids_foldl_delete:
  "index_ids (foldl (\<lambda>idx n. index_delete n i idx) idx names) k
     = (if k \<in> set names then index_ids idx k - {i} else index_ids idx k)"
  by (induction names arbitrary: idx) (auto simp: index_ids_delete)

lemma updateIndices_ids:
  "entities (updateIndices e m) = entities m"
  "index_ids (byType (updateIndices e m)) t
     = (if t = ent_type e then insert (ent_id e) (index_ids (byType m) t) else index_ids (byType m) t)"
  "index_ids (byRealm (updateIndices e m)) r
     = (if truthy r \<and> position_field e ''realm'' = r then insert (ent_id e) (index_ids (byRealm m) r)
        else index_ids (byRealm m) r)"
  "index_ids (byCity (updateIndices e m)) c
     = (if truthy c \<and> position_field e ''city'' = c then insert (ent_id e) (index_ids (byCity m) c)
        else index_ids (byCity m) c)"
  "index_ids (byComponent (updateIndices e m)) n
     = (if n \<in> fst ` set (components e) then insert (ent_id e) (index_ids (byComponent m) n)
        else index_ids (byComponent m) n)"
  by (auto simp: updateIndices_def Let_def index_ids_add index_ids_foldl_add)

lemma removeFromIndices_ids:
  "entities (removeFromIndices e m) = entities m"
  "index_ids (byType (removeFromIndices e m)) t
     = (if t = ent_type e then index_ids (byType m) t - {ent_id e} else index_ids (byType m) t)"
  "index_ids (byRealm (removeFromIndices e m)) r
     = (if truthy r \<and> position_field e ''realm'' = r then index_ids (byRealm m) r - {ent_id e}
        else index_ids (byRealm m) r)"
  "index_ids (byCity (removeFromIndices e m)) c
     = (if truthy c \<and> position_field e ''city'' = c then index_ids (byCity m) c - {ent_id e}
        else index_ids (byCity m) c)"
  "index_ids (byComponent (removeFromIndices e m)) n
     = (if n \<in> fst ` set (components e) then index_ids (byComponent m) n - {ent_id e}
        else index_ids (byComponent m) n)"
  by (auto simp: removeFromIndices_def Let_def index_ids_delete index_ids_foldl_delete)


lemma new_EntityManager_consistent: "store_consistent new_EntityManager"
  by (simp add: store_consistent_def new_EntityManager_def index_ids_def)

lemma add_consistent:
  assumes "store_consistent m" "map_of (entities m) (ent_id e) = None"
  shows "store_consistent (add e m)"
proof -
  let ?m1 = "m\<lparr> entities := AList.update (ent_id e) e (entities m) \<rparr>"
  have ent: "map_of (entities (add e m)) = (map_of (entities m))(ent_id e \<mapsto> e)"
    by (simp add: add_def updateIndices_ids(1) update_conv')
  have idx: "byType ?m1 = byType m" "byRealm ?m1 = byRealm m" "byCity ?m1 = byCity m"
    "byComponent ?m1 = byComponent m" by simp_all
  show ?thesis
    unfolding store_consistent_def ent
    unfolding add_def updateIndices_ids idx
    using assms by (auto simp: store_consistent_def)
qed

lemma remove_consistent:
  assumes "store_consistent m"
  shows "store_consistent (fst (remove i m))"
proof (cases "map_of (entities m) i")
  case None
  then show ?thesis using assms by (simp add: remove_def)
next
  case (Some e)
  have i: "ent_id e = i" using assms Some by (simp add: store_consistent_def)
  let ?m' = "(removeFromIndices e m)\<lparr> entities := AList.delete i (entities m) \<rparr>"
  have r: "fst (remove i m) = ?m'" using Some by (simp add: remove_def)
  have ent: "map_of (entities ?m') = (map_of (entities m))(i := None)"
    by (simp add: delete_conv')
  have idx: "byType ?m' = byType (removeFromIndices e m)" "byRealm ?m' = byRealm (removeFromIndices e m)"
    "byCity ?m' = byCity (removeFromIndices e m)" "byComponent ?m' = byComponent (removeFromIndices e m)"
    by simp_all
  show ?thesis
    unfolding r store_consistent_def ent idx removeFromIndices_ids
    using assms Some i by (auto simp: store_consistent_def)
qed

lemma update_consistent:
  assumes "store_consistent m" "upd_id u = None \<or> upd_id u = Some i"
  shows "store_consistent (fst (update i u m))"
proof (cases "map_of (entities m) i")
  case None
  then show ?thesis using assms by (simp add: update_def)
next
  case (Some e)
  have i: "ent_id e = i" using assms Some by (simp add: store_consistent_def)
  define e' where "e' = assign e u"
  have i': "ent_id e' = i" using assms(2) i by (auto simp: assign_def e'_def)
  define m0 where "m0 = fst (remove i m)"
  have m0: "store_consistent m0" unfolding m0_def using assms(1) by (rule remove_consistent)
  have m0e: "map_of (entities m0) = (map_of (entities m))(i := None)"
    using Some by (simp add: m0_def remove_def delete_conv')
  have m0i: "byType m0 = byType (removeFromIndices e m)" "byRealm m0 = byRealm (removeFromIndices e m)"
    "byCity m0 = byCity (removeFromIndices e m)" "byComponent m0 = byComponent (removeFromIndices e m)"
    using Some by (simp_all add: m0_def remove_def)
  define m' where "m' = fst (update i u m)"
  have r: "m' = updateIndices e' ((removeFromIndices e m)\<lparr> entities :=
             AList.update i e' (entities (removeFromIndices e m)) \<rparr>)"
    using Some by (simp add: m'_def update_def Let_def e'_def)
  have ent: "map_of (entities m') = (map_of (entities m0))(i \<mapsto> e')"
    unfolding r m0e by (simp add: updateIndices_ids(1) removeFromIndices_ids(1) update_conv')
  have t: "index_ids (byType m') t = (if t = ent_type e' then insert i (index_ids (byType m0) t) else index_ids (byType m0) t)" for t
    unfolding r m0i by (simp add: updateIndices_ids i')
  have rl: "index_ids (byRealm m') x = (if truthy x \<and> position_field e' ''realm'' = x
              then insert i (index_ids (byRealm m0) x) else index_ids (byRealm m0) x)" for x
    unfolding r m0i by (simp add: updateIndices_ids i')
  have ct: "index_ids (byCity m') x = (if truthy x \<and> position_field e' ''city'' = x
              then insert i (index_ids (byCity m0) x) else index_ids (byCity m0) x)" for x
    unfolding r m0i by (simp add: updateIndices_ids i')
  have cp: "index_ids (byComponent m') n = (if n \<in> fst ` set (components e')
              then insert i (index_ids (byComponent m0) n) else index_ids (byComponent m0) n)" for n
    unfolding r m0i by (simp add: updateIndices_ids i')
  have fresh: "map_of (entities m0) i = None" by (simp add: m0e)
  have "store_consistent m'"
    unfolding store_consistent_def ent t rl ct cp
    using m0 fresh i' by (auto simp: store_consistent_def)
  then show ?thesis by (simp add: m'_def)
qed

lemma removed_id_not_indexed:
  assumes "store_consistent m"
  shows "i \<notin> index_ids (byType (fst (remove i m))) t \<and> i \<notin> index_ids (byRealm (fst (remove i m))) r
       \<and> i \<notin> index_ids (byCity (fst (remove i m))) c \<and> i \<notin> index_ids (byComponent (fst (remove i m))) n
       \<and> get i (fst (remove i m)) = None"
proof -
  have g: "map_of (entities (fst (remove i m))) i = None"
    by (auto simp: remove_def delete_conv' split: option.splits)
  then show ?thesis using remove_consistent[OF assms, of i]
    by (auto simp: store_consistent_def get_def)
qed


lemma overwriting_add_breaks_consistency:
  "store_consistent (add npc_e1 new_EntityManager)
   \<and> \<not> store_consistent (add item_e1 (add npc_e1 new_EntityManager))"
proof
  show "store_consistent (add npc_e1 new_EntityManager)"
    by (rule add_consistent[OF new_EntityManager_consistent]) (simp add: new_EntityManager_def)
  have "''e1'' \<in> index_ids (byType (add item_e1 (add npc_e1 new_EntityManager))) ''npc''"
    by (simp add: index_ids_def store_eval npc_e1_def item_e1_def)
  moreover have "map_of (entities (add item_e1 (add npc_e1 new_EntityManager))) ''e1'' = Some item_e1"
    by (simp add: store_eval npc_e1_def item_e1_def)
  ultimately show "\<not> store_consistent (add item_e1 (add npc_e1 new_EntityManager))"
    by (auto simp: store_consistent_def item_e1_def)
qed

section \<open>Properties of the entity factory\<close>

lemmas registration_eval = registerFromJSON_def registerTemplate_def truthy_string_def
  has_template_def new_EntityFactory_def tpl_def Let_def

text \<open>
  An iteration of the second pass that cannot register the head of the queue pushes it
  back, finds the queue as long as before and throws: no template is ever tried twice.
\<close>

lemma second_pass_gives_up_at_once:
  assumes "\<not> has_template f (tpl_extends template)"
  shows "second_pass (template # rest) (Suc (length rest)) f
         = (Some (CircularOrMissingParents
                    (map (\<lambda>t. (tpl_id t, tpl_extends t)) (rest @ [template]))), f)"
  using assms by simp

text \<open>
  Claim C2 says that bulk registration succeeds for every order of an acyclic list whose
  parents are all present, and throws only when a full pass over the queue makes no
  progress.  For the chain \<open>root\<close>, \<open>mid\<close>, \<open>leaf\<close> listed leaf first, \<open>root\<close> is registered
  in the first pass, the queue is \<open>[leaf, mid]\<close>, and the very first iteration throws
  because \<open>mid\<close> is not registered yet, although \<open>mid\<close> could be registered next.  The
  same templates listed root first are accepted.  (That the loop always terminates is
  the termination proof of \<open>second_pass\<close>.)
\<close>

theorem registerFromJSON_rejects_leaf_first:
  "fst (registerFromJSON leaf_first (new_EntityFactory None))
     = Some (CircularOrMissingParents [(''mid'', Some ''root''), (''leaf'', Some ''mid'')])
   \<and> fst (registerFromJSON (rev leaf_first) (new_EntityFactory None)) = None"
  by (simp add: leaf_first_def registration_eval)

subsection \<open>Where the merge is the specified deep merge\<close>

text \<open>
  On plain data without an array/object conflict, \<open>deepMerge\<close> and \<open>mergeComponents\<close>
  compute the specified deep merge, and \<open>createFromTemplate\<close> (no overrides, no registry)
  returns an entity whose components are the deep merge of the chain.
\<close>

lemma deepClone_plain: "plain v \<Longrightarrow> deepClone v = v"
proof (induction v)
  case (JArr es ps)
  then show ?case by (auto intro: map_idI)
next
  case (JObj fs)
  have "map (map_prod id deepClone) fs = fs"
  proof (rule map_idI)
    fix e assume e: "e \<in> set fs"
    obtain k v where kv: "e = (k, v)" by (cases e)
    with e JObj.prems have "plain v" by auto
    moreover have "v \<in> Basic_BNFs.snds e" using kv by simp
    ultimately have "deepClone v = v" using JObj.IH e by blast
    then show "map_prod id deepClone e = e" using kv by simp
  qed
  then show ?case by simp
qed simp_all

lemma deep_merge_spec_fields_fresh:
  assumes "distinct (map fst vf)" "fst ` set vf \<inter> fst ` set pf = {}"
  shows "deep_merge_spec_fields pf vf = pf @ vf"
  using assms
proof (induction vf arbitrary: pf)
  case Nil
  then show ?case by simp
next
  case (Cons e rest)
  obtain k v where kv: "e = (k, v)" by (cases e)
  have none: "map_of pf k = None" using Cons.prems(2) kv by (auto simp: map_of_eq_None_iff)
  have upd: "AList.update k v pf = pf @ [(k, v)]"
    using none by (induction pf) (auto split: if_splits)
  have "deep_merge_spec_fields (pf @ [(k, v)]) rest = (pf @ [(k, v)]) @ rest"
    using Cons.prems kv by (intro Cons.IH) auto
  then show ?case using kv none upd by simp
qed

lemma deep_merge_spec_empty:
  assumes "plain (JObj vf)"
  shows "deep_merge_spec (JObj []) (JObj vf) = JObj vf"
  using assms deep_merge_spec_fields_fresh[of vf "[]"] by simp

lemma deep_merge_spec_non_object_child:
  "\<forall>cf. child \<noteq> JObj cf \<Longrightarrow> deep_merge_spec parent child = child"
  by (cases child) auto

lemma deep_merge_spec_non_object_parent:
  "\<forall>pf. parent \<noteq> JObj pf \<Longrightarrow> deep_merge_spec parent child = child"
  by (cases child; cases parent) auto

lemma plain_or_empty: "plain v \<Longrightarrow> plain (or_empty v)"
  by (simp add: or_empty_def)

lemma plain_field: "plain (JObj rf) \<Longrightarrow> plain (field rf k)"
  by (auto simp: field_def split: option.splits dest: map_of_SomeD)

lemma field_update_other: "k' \<noteq> k \<Longrightarrow> field (AList.update k v rf) k' = field rf k'"
  by (simp add: field_def update_conv')

lemma plain_update:
  assumes "plain (JObj rf)" "plain v"
  shows "plain (JObj (AList.update k v rf))"
proof -
  have "set (AList.update k v rf) \<subseteq> insert (k, v) (set rf)"
    by (induction rf) auto
  then show ?thesis using assms by (auto simp: distinct_update)
qed

lemma spec_entry_or_empty:
  assumes "plain (snd e)" "snd e = JObj vf"
  shows "deep_merge_spec (or_empty (field rf (fst e))) (snd e) = spec_entry rf e"
proof (cases "map_of rf (fst e)")
  case None
  then show ?thesis using assms deep_merge_spec_empty[of vf]
    by (simp add: spec_entry_def field_def or_empty_def)
next
  case (Some p)
  show ?thesis
  proof (cases "truthy p")
    case True
    then show ?thesis using Some by (simp add: spec_entry_def field_def or_empty_def)
  next
    case False
    then have "\<forall>pf. p \<noteq> JObj pf" by auto
    then have "deep_merge_spec p (snd e) = snd e" by (rule deep_merge_spec_non_object_parent)
    then show ?thesis using Some False assms deep_merge_spec_empty[of vf]
      by (simp add: spec_entry_def field_def or_empty_def)
  qed
qed

lemma spec_entry_non_object:
  assumes "\<forall>vf. snd e \<noteq> JObj vf"
  shows "spec_entry rf e = snd e"
  using deep_merge_spec_non_object_child[OF assms] by (simp add: spec_entry_def split: option.splits)

lemma deepMerge_is_deep_merge_spec:
  shows "plain target \<Longrightarrow> plain source \<Longrightarrow> truthy target \<Longrightarrow> mergeable target source
          \<Longrightarrow> (source = JNull \<Longrightarrow> \<not> typeof_object target)
          \<Longrightarrow> deepMerge tn target source = Inr (deep_merge_spec target source)
              \<and> plain (deep_merge_spec target source)"
    and "result = JObj rf \<Longrightarrow> plain result \<Longrightarrow> distinct (map fst entries)
          \<Longrightarrow> \<forall>e\<in>set entries. plain (snd e)
          \<Longrightarrow> \<forall>e\<in>set entries. mergeable (or_empty (field rf (fst e))) (snd e)
          \<Longrightarrow> merge_entries tn result entries = Inr (JObj (deep_merge_spec_fields rf entries))
              \<and> plain (JObj (deep_merge_spec_fields rf entries))"
proof (induction tn target source and tn result entries arbitrary: and rf
       rule: deepMerge_merge_entries.induct)
  case (1 tn target source)
  show ?case
  proof (cases "\<not> typeof_object target \<or> \<not> typeof_object source")
    case True
    then have "(\<forall>cf. source \<noteq> JObj cf) \<or> (\<forall>pf. target \<noteq> JObj pf)" by auto
    then have "deep_merge_spec target source = source"
      using deep_merge_spec_non_object_child[where child=source and parent=target]
        deep_merge_spec_non_object_parent[where child=source and parent=target] by blast
    moreover have "deepMerge tn target source = Inr source"
      using True by (subst deepMerge.simps) simp
    ultimately show ?thesis using "1.prems"(2) by (simp del: deepMerge.simps)
  next
    case objs: False
    show ?thesis
    proof (cases source)
      case (JArr es ps)
      then have "deep_merge_spec target source = source" by simp
      moreover have "deepMerge tn target source = Inr (deepClone source)"
        using objs JArr by (subst deepMerge.simps) simp
      ultimately show ?thesis using "1.prems"(2) deepClone_plain[of source]
        by (simp del: deepMerge.simps)
    next
      case (JObj sf)
      from objs "1.prems"(3,4) JObj obtain tf where tf: "target = JObj tf"
        by (cases target) (auto simp del: deepMerge.simps)
      have c: "deepClone target = JObj tf" using deepClone_plain[OF "1.prems"(1)] tf by simp
      have m: "\<forall>e\<in>set sf. mergeable (or_empty (field tf (fst e))) (snd e)"
        using "1.prems"(4) JObj tf by simp
      have na: "\<not> isArray source" using JObj by simp
      have ih: "merge_entries tn (deepClone target) sf = Inr (JObj (deep_merge_spec_fields tf sf))
              \<and> plain (JObj (deep_merge_spec_fields tf sf))"
      proof (rule "1.IH"[OF objs na JObj c])
        show "plain (deepClone target)" using "1.prems"(1) c tf by simp
        show "distinct (map fst sf)" using "1.prems"(2) JObj by simp
        show "\<forall>e\<in>set sf. plain (snd e)" using "1.prems"(2) JObj by simp
        show "\<forall>e\<in>set sf. mergeable (or_empty (field tf (fst e))) (snd e)" by fact
      qed
      have "deepMerge tn target source = merge_entries tn (deepClone target) sf"
        using objs JObj by (subst deepMerge.simps) simp
      moreover have "deep_merge_spec target source = JObj (deep_merge_spec_fields tf sf)"
        using JObj tf by simp
      ultimately show ?thesis using ih by (simp del: deepMerge.simps)
    next
      case JNull
      then show ?thesis using objs "1.prems"(5) by (simp del: deepMerge.simps)
    qed (use objs in \<open>simp_all del: deepMerge.simps\<close>)
  qed
next
  case (2 tn result)
  then show ?case by simp
next
  case (3 tn result entry rest)
  let ?k = "fst entry" and ?v = "snd entry"
  let ?sv = "spec_entry rf entry"
  have res: "result = JObj rf" by fact
  have plain_rf: "plain (JObj rf)" using "3.prems"(1,2) by simp
  have pv: "plain ?v" using "3.prems"(4) by simp
  have g: "get_property result ?k = Inr (field rf ?k)" using res by simp
  have step: "(if typeof_object ?v \<and> \<not> isArray ?v \<and> ?v \<noteq> JNull
            then case get_property result ?k of Inl x \<Rightarrow> Inl x
                 | Inr current \<Rightarrow>
                     deepMerge tn (if truthy current then current else JObj []) ?v
            else Inr (deepClone ?v)) = Inr ?sv \<and> plain ?sv"
  proof (cases "typeof_object ?v \<and> \<not> isArray ?v \<and> ?v \<noteq> JNull")
    case True
    then obtain vf where vf: "?v = JObj vf" by (cases ?v) auto
    have "deepMerge tn (if truthy (field rf ?k) then field rf ?k else JObj []) ?v
            = Inr (deep_merge_spec (if truthy (field rf ?k) then field rf ?k else JObj []) ?v)
          \<and> plain (deep_merge_spec (if truthy (field rf ?k) then field rf ?k else JObj []) ?v)"
    proof (rule "3.IH"(1)[OF True g])
      show "plain (if truthy (field rf ?k) then field rf ?k else JObj [])"
        using plain_field[OF plain_rf] by simp
      show "plain ?v" by fact
      show "truthy (if truthy (field rf ?k) then field rf ?k else JObj [])" by simp
      show "mergeable (if truthy (field rf ?k) then field rf ?k else JObj []) ?v"
        using "3.prems"(5) by (simp add: or_empty_def)
      show "?v = JNull \<Longrightarrow> \<not> typeof_object (if truthy (field rf ?k) then field rf ?k else JObj [])"
        using True by simp
    qed
    moreover have "deep_merge_spec (if truthy (field rf ?k) then field rf ?k else JObj []) ?v = ?sv"
      using spec_entry_or_empty[OF pv vf, of rf] by (simp add: or_empty_def)
    ultimately show ?thesis using True g by (simp del: deepMerge.simps)
  next
    case False
    then have "\<forall>vf. ?v \<noteq> JObj vf" by (cases ?v) auto
    then have "?sv = ?v" by (rule spec_entry_non_object)
    moreover have "(if typeof_object ?v \<and> \<not> isArray ?v \<and> ?v \<noteq> JNull
            then case get_property result ?k of Inl x \<Rightarrow> Inl x
                 | Inr current \<Rightarrow>
                     deepMerge tn (if truthy current then current else JObj []) ?v
            else Inr (deepClone ?v)) = Inr (deepClone ?v)"
      by (simp only: False if_False)
    ultimately show ?thesis using deepClone_plain[OF pv] pv by (simp del: deepMerge.simps)
  qed
  have assign: "set_property tn result ?k ?sv = Inr (JObj (AList.update ?k ?sv rf))"
    using res by simp
  have plain_rf': "plain (JObj (AList.update ?k ?sv rf))"
    using plain_rf step by (intro plain_update) simp_all
  have others: "\<forall>e\<in>set rest. fst e \<noteq> ?k"
    using "3.prems"(3) by (auto intro: rev_image_eqI)
  have "merge_entries tn (JObj (AList.update ?k ?sv rf)) rest
          = Inr (JObj (deep_merge_spec_fields (AList.update ?k ?sv rf) rest))
        \<and> plain (JObj (deep_merge_spec_fields (AList.update ?k ?sv rf) rest))"
  proof (rule "3.IH"(2)[OF conjunct1[OF step] assign refl plain_rf'])
    show "distinct (map fst rest)" using "3.prems"(3) by simp
    show "\<forall>e\<in>set rest. plain (snd e)" using "3.prems"(4) by simp
    show "\<forall>e\<in>set rest. mergeable (or_empty (field (AList.update ?k ?sv rf) (fst e))) (snd e)"
      using "3.prems"(5) others by (simp add: field_update_other)
  qed
  moreover have "deep_merge_spec_fields rf (entry # rest)
                 = deep_merge_spec_fields (AList.update ?k ?sv rf) rest"
    by (simp add: spec_entry_def)
  ultimately show ?case using step assign by (simp del: deepMerge.simps)
qed

lemma plain_record_update:
  assumes "plain_record rf" "plain v"
  shows "plain_record (AList.update k v rf)"
  using plain_update[of rf v k] assms by (simp add: plain_record_def)

lemma merge_components_loop_is_deep_merge_spec:
  assumes "plain_record result" "distinct (map fst override)"
    "\<forall>e\<in>set override. plain (snd e)" "mergeable_record result override"
  shows "merge_components_loop tn result override = Inr (deep_merge_spec_fields result override)
       \<and> plain_record (deep_merge_spec_fields result override)"
  using assms
proof (induction override arbitrary: result)
  case Nil
  then show ?case by simp
next
  case (Cons e rest)
  obtain k v where kv: "e = (k, v)" by (cases e)
  let ?cur = "field result k"
  let ?sv = "spec_entry result e"
  have pr: "plain (JObj result)" using Cons.prems(1) by (simp add: plain_record_def)
  have pv: "plain v" using Cons.prems(3) kv by simp
  have cm: "component_mergeable ?cur v" using Cons.prems(4) kv by (simp add: mergeable_record_def)
  have step: "(if truthy ?cur \<and> typeof_object v \<and> \<not> isArray v
               then deepMerge tn ?cur v else Inr (deepClone v)) = Inr ?sv \<and> plain ?sv"
  proof (cases "truthy ?cur \<and> typeof_object v \<and> \<not> isArray v")
    case True
    then obtain p where p: "map_of result k = Some p" "p = ?cur"
      by (cases "map_of result k") (auto simp: field_def)
    have "deepMerge tn ?cur v = Inr (deep_merge_spec ?cur v) \<and> plain (deep_merge_spec ?cur v)"
    proof (rule deepMerge_is_deep_merge_spec(1))
      show "plain ?cur" using plain_field[OF pr] .
      show "plain v" by fact
      show "truthy ?cur" using True by simp
      show "mergeable ?cur v" using cm by (simp add: component_mergeable_def)
      show "v = JNull \<Longrightarrow> \<not> typeof_object ?cur"
        using cm True by (simp add: component_mergeable_def)
    qed
    moreover have "?sv = deep_merge_spec ?cur v" using p kv by (simp add: spec_entry_def)
    ultimately show ?thesis using True by (simp del: deepMerge.simps)
  next
    case False
    have "?sv = v"
    proof (cases "\<forall>vf. v \<noteq> JObj vf")
      case True
      then show ?thesis using spec_entry_non_object[of e result] kv by simp
    next
      case obj: False
      then have "\<not> truthy ?cur" using False by auto
      then have "\<forall>p. map_of result k = Some p \<longrightarrow> (\<forall>pf. p \<noteq> JObj pf)"
        by (auto simp: field_def)
      then show ?thesis using kv deep_merge_spec_non_object_parent
        by (auto simp: spec_entry_def split: option.splits)
    qed
    moreover have "(if truthy ?cur \<and> typeof_object v \<and> \<not> isArray v
               then deepMerge tn ?cur v else Inr (deepClone v)) = Inr (deepClone v)"
      by (simp only: False if_False)
    ultimately show ?thesis using pv deepClone_plain[OF pv] by (simp del: deepMerge.simps)
  qed
  let ?r = "AList.update k ?sv result"
  have loop: "merge_components_loop tn result (e # rest) = merge_components_loop tn ?r rest"
  proof (cases "truthy ?cur \<and> typeof_object v \<and> \<not> isArray v")
    case True
    have "deepMerge tn ?cur v = Inr ?sv"
      using conjunct1[OF step] by (simp only: True if_True simp_thms)
    then show ?thesis using True kv by (simp del: deepMerge.simps)
  next
    case False
    have "deepClone v = ?sv"
      using conjunct1[OF step] by (simp only: False if_False sum.inject)
    then show ?thesis using False kv by (auto simp del: deepMerge.simps)
  qed
  have others: "\<forall>e'\<in>set rest. fst e' \<noteq> k"
    using Cons.prems(2) kv by (auto intro: rev_image_eqI)
  have "merge_components_loop tn ?r rest = Inr (deep_merge_spec_fields ?r rest)
          \<and> plain_record (deep_merge_spec_fields ?r rest)"
  proof (rule Cons.IH)
    show "plain_record ?r" using Cons.prems(1) step by (intro plain_record_update) simp_all
    show "distinct (map fst rest)" using Cons.prems(2) by simp
    show "\<forall>e\<in>set rest. plain (snd e)" using Cons.prems(3) by simp
    show "mergeable_record ?r rest"
      using Cons.prems(4) others by (simp add: mergeable_record_def field_update_other)
  qed
  moreover have "deep_merge_spec_fields result (e # rest) = deep_merge_spec_fields ?r rest"
    using kv by (simp add: spec_entry_def)
  ultimately show ?case using loop by simp
qed

lemma mergeComponents_is_deep_merge_spec:
  assumes "plain_record base" "plain_record override" "mergeable_record base override"
  shows "mergeComponents tn base override = Inr (deep_merge_spec_fields base override)
       \<and> plain_record (deep_merge_spec_fields base override)"
proof -
  have "deepClone_record base = base"
    unfolding deepClone_record_def
  proof (rule map_idI)
    fix e assume "e \<in> set base"
    then have "plain (snd e)" using assms(1) by (simp add: plain_record_def)
    then show "map_prod id deepClone e = e" using deepClone_plain by (cases e) simp
  qed
  then show ?thesis
    using merge_components_loop_is_deep_merge_spec[of base override tn] assms
    by (simp add: mergeComponents_def plain_record_def)
qed

lemma deepClone_record_plain: "plain_record fs \<Longrightarrow> deepClone_record fs = fs"
  unfolding deepClone_record_def
proof (rule map_idI)
  fix e assume "plain_record fs" "e \<in> set fs"
  then have "plain (snd e)" by (simp add: plain_record_def)
  then show "map_prod id deepClone e = e" using deepClone_plain by (cases e) simp
qed

lemma resolveTemplate_is_chain_merge:
  "chain_mergeable n f template \<Longrightarrow>
   \<exists>resolved. resolveTemplate tn n f template = Some (Inr resolved)
     \<and> chain_merge_spec n f template = Some (tpl_components resolved)
     \<and> plain_record (tpl_components resolved)"
proof (induction n arbitrary: template)
  case 0
  then show ?case by simp
next
  case (Suc n)
  show ?case
  proof (cases "truthy_string (tpl_extends template)")
    case False
    then show ?thesis using Suc.prems by simp
  next
    case True
    with Suc.prems obtain parent merged where
      p: "map_of (templates f) (the (tpl_extends template)) = Some parent"
      and cm: "chain_mergeable n f parent"
      and sp: "chain_merge_spec n f parent = Some merged"
      and mr: "mergeable_record merged (tpl_components template)"
      and pl: "plain_record (tpl_components template)"
      by (auto split: option.splits)
    from Suc.IH[OF cm] sp obtain rp where
      r: "resolveTemplate tn n f parent = Some (Inr rp)"
      and c: "tpl_components rp = merged" and prp: "plain_record (tpl_components rp)"
      by auto
    from mergeComponents_is_deep_merge_spec[OF prp pl, of tn] mr c
    have m: "mergeComponents tn (tpl_components rp) (tpl_components template)
               = Inr (deep_merge_spec_fields merged (tpl_components template))"
      and pm: "plain_record (deep_merge_spec_fields merged (tpl_components template))"
      by simp_all
    show ?thesis using True p r m pm sp by simp
  qed
qed

lemma createFromTemplate_is_chain_merge:
  assumes "map_of (templates f) templateId = Some template"
    and "chain_mergeable n f template" and "typeRegistry f = None"
  shows "\<exists>entity f'. createFromTemplate tn n templateId None f = Some (Inr entity, f')
           \<and> chain_merge_spec n f template = Some (components entity)"
proof -
  from resolveTemplate_is_chain_merge[OF assms(2), of tn] obtain resolved where
    r: "resolveTemplate tn n f template = Some (Inr resolved)"
    and c: "chain_merge_spec n f template = Some (tpl_components resolved)"
    and p: "plain_record (tpl_components resolved)"
    by blast
  have g: "typeRegistry (snd (generateId f)) = typeRegistry f"
    by (simp add: generateId_def split: option.splits)
  show ?thesis
    using assms(1,3) r c deepClone_record_plain[OF p] g
    by (simp add: createFromTemplate_def override_id_def override_components_def
          validated_def Let_def case_prod_unfold)
qed

text \<open>
  Claim C8 says that the components of the created entity are the deep merge of the
  chain, the child's field overriding the ancestor's.  Where the parent's field is an
  array and the child's an object, \<open>deepMerge\<close> copies the child's fields onto a clone of
  the array as named properties, and the final \<open>deepClone\<close> rebuilds the array without
  them: the entity gets the parent's array and nothing of the child's field, for every
  number conversion \<open>tn\<close>.  The deep merge as specified yields the child's object.
\<close>

theorem child_object_does_not_override_parent_array:
  "\<exists>f'. createFromTemplate tn 2 ''kid'' None base_kid_factory
          = Some (Inr \<lparr> ent_id = ''entity_0_0'', ent_type = ''npc'',
                         components = [(''inv'', JObj [(''items'', JArr [JNum 1, JNum 2] [])])] \<rparr>, f')
   \<and> deep_merge_spec_fields [(''inv'', JObj [(''items'', JArr [JNum 1, JNum 2] [])])]
         [(''inv'', JObj [(''items'', JObj [(''a'', JNum 1)])])]
       = [(''inv'', JObj [(''items'', JObj [(''a'', JNum 1)])])]"
  by (simp add: base_kid_factory_def registration_eval createFromTemplate_def
        mergeComponents_def deepClone_record_def override_id_def override_type_def
        override_components_def validated_def generateId_def or_string_def
        or_string_option_def field_def is_array_index_def digit_char_def numeral_2_eq_2)

section \<open>Properties of the scheduler\<close>

lemma update_registration_static:
  assumes "update_registration now tick ctx reg w = (reg', w')"
  shows "reg_system reg' = reg_system reg \<and> reg_phase reg' = reg_phase reg"
  using assms by (auto simp: update_registration_def Let_def split: if_splits prod.splits)

lemma update_registration_world:
  assumes "update_registration now tick ctx reg w = (reg', w')" "sys_enabled (reg_system reg)"
  shows "w' = apply_updates ctx w (filter (due tick) [reg_system reg])"
  using assms
  by (auto simp: update_registration_def due_def apply_updates_def Let_def
           split: if_splits prod.splits)

lemma static_part_update:
  assumes "map_of (systems sm) name = Some reg"
    "reg_system reg' = reg_system reg" "reg_phase reg' = reg_phase reg"
  shows "static_part (sm\<lparr> systems := AList.update name reg' (systems sm) \<rparr>) = static_part sm"
proof -
  have "map (\<lambda>(name, reg). (name, reg_system reg, reg_phase reg)) (AList.update name reg' xs)
        = map (\<lambda>(name, reg). (name, reg_system reg, reg_phase reg)) xs"
    if "map_of xs name = Some reg" for xs
    using that assms(2,3) by (induction xs) (auto split: if_splits)
  from this[OF assms(1)] show ?thesis by (simp add: static_part_def)
qed

lemma static_part_lookup:
  assumes "static_part sm' = static_part sm"
  shows "map_option (\<lambda>r. (reg_system r, reg_phase r)) (map_of (systems sm') name)
       = map_option (\<lambda>r. (reg_system r, reg_phase r)) (map_of (systems sm) name)"
proof -
  have "map_option (\<lambda>r. (reg_system r, reg_phase r)) (map_of xs name)
        = map_of (map (\<lambda>(name, reg). (name, reg_system reg, reg_phase reg)) xs) name"
    for xs :: "(string \<times> 'a SystemRegistration) list"
    by (induction xs) auto
  then show ?thesis using assms by (simp add: static_part_def)
qed

lemma system_named_static:
  assumes "static_part sm' = static_part sm"
  shows "system_named sm' name = system_named sm name"
  using static_part_lookup[OF assms, of name]
  by (cases "map_of (systems sm') name"; cases "map_of (systems sm) name")
     (auto simp: system_named_def)

lemma static_part_keys:
  assumes "static_part sm' = static_part sm"
  shows "map fst (systems sm') = map fst (systems sm)" "sm_tickCount sm' = sm_tickCount sm"
proof -
  have "map fst (systems x) = map fst (fst (static_part x))" for x :: "'a SystemManager"
    by (simp add: static_part_def comp_def case_prod_unfold)
  then show "map fst (systems sm') = map fst (systems sm)" using assms by simp
  show "sm_tickCount sm' = sm_tickCount sm" using assms by (simp add: static_part_def)
qed

lemma phase_due_static:
  assumes "static_part sm' = static_part sm"
  shows "phase_due sm' phase = phase_due sm phase"
proof -
  have "phase_due x phase
        = map (\<lambda>(name, s, p). s)
            (filter (\<lambda>(name, s, p). p = phase \<and> due (snd (static_part x)) s) (fst (static_part x)))"
    for x :: "'a SystemManager"
    by (simp add: phase_due_def static_part_def filter_map comp_def case_prod_unfold)
  then show ?thesis using assms by simp
qed

lemma apply_updates_append:
  "apply_updates ctx (apply_updates ctx w xs) ys = apply_updates ctx w (xs @ ys)"
  by (simp add: apply_updates_def)

lemma run_systems_world:
  assumes "run_systems now ctx names sm w = (sm', w')"
    and "\<forall>n\<in>set names. map_of (systems sm) n \<noteq> None \<and> sys_enabled (system_named sm n)"
  shows "static_part sm' = static_part sm
       \<and> w' = apply_updates ctx w (filter (due (sm_tickCount sm)) (map (system_named sm) names))"
  using assms
proof (induction names arbitrary: sm w)
  case Nil
  then show ?case by (simp add: apply_updates_def)
next
  case (Cons name rest)
  from Cons.prems(2) obtain reg where reg: "map_of (systems sm) name = Some reg"
    and en: "sys_enabled (reg_system reg)"
    by (auto simp: system_named_def)
  obtain reg' w1 where u: "update_registration now (sm_tickCount sm) ctx reg w = (reg', w1)"
    by (cases "update_registration now (sm_tickCount sm) ctx reg w")
  let ?sm1 = "sm\<lparr> systems := AList.update name reg' (systems sm) \<rparr>"
  have r: "run_systems now ctx rest ?sm1 w1 = (sm', w')"
    using Cons.prems(1) reg u by simp
  have st: "static_part ?sm1 = static_part sm"
    using reg update_registration_static[OF u] by (intro static_part_update) auto
  have same: "reg_system reg' = reg_system reg"
    using update_registration_static[OF u] by simp
  have named: "system_named ?sm1 n = system_named sm n" for n
    using reg same by (simp add: system_named_def update_conv')
  have keys: "map_of (systems ?sm1) n \<noteq> None \<longleftrightarrow> map_of (systems sm) n \<noteq> None" for n
    using reg by (simp add: update_conv')
  have pre: "\<forall>n\<in>set rest. map_of (systems ?sm1) n \<noteq> None \<and> sys_enabled (system_named ?sm1 n)"
  proof
    fix n assume "n \<in> set rest"
    with Cons.prems(2) have "map_of (systems sm) n \<noteq> None \<and> sys_enabled (system_named sm n)"
      by simp
    then show "map_of (systems ?sm1) n \<noteq> None \<and> sys_enabled (system_named ?sm1 n)"
      unfolding named keys .
  qed
  from Cons.IH[OF r pre] have s': "static_part sm' = static_part ?sm1"
    and w': "w' = apply_updates ctx w1 (filter (due (sm_tickCount ?sm1)) (map (system_named ?sm1) rest))"
    by simp_all
  have w1: "w1 = apply_updates ctx w (filter (due (sm_tickCount sm)) [system_named sm name])"
    using update_registration_world[OF u en] reg by (simp add: system_named_def)
  have t1: "sm_tickCount ?sm1 = sm_tickCount sm" by simp
  have m1: "map (system_named ?sm1) rest = map (system_named sm) rest"
    using named by (intro map_cong) auto
  have "w' = apply_updates ctx w
               (filter (due (sm_tickCount sm)) [system_named sm name]
                @ filter (due (sm_tickCount sm)) (map (system_named sm) rest))"
    unfolding w' w1 apply_updates_append t1 m1 ..
  then have "w' = apply_updates ctx w
               (filter (due (sm_tickCount sm)) (map (system_named sm) (name # rest)))"
    by simp
  moreover have "static_part sm' = static_part sm" using s' st by (rule trans)
  ultimately show ?case by blast
qed

lemma updatePhase_world:
  assumes "updatePhase now phase ctx sm w = (sm', w')" "distinct (map fst (systems sm))"
  shows "static_part sm' = static_part sm \<and> w' = apply_updates ctx w (phase_due sm phase)"
proof -
  let ?Q = "\<lambda>(name, reg). reg_phase reg = phase \<and> sys_enabled (reg_system reg)"
  have look: "map_of (systems sm) n = Some r" if "(n, r) \<in> set (systems sm)" for n r
    using that assms(2) by simp
  have pre: "\<forall>n\<in>set (systemsInPhase phase sm).
               map_of (systems sm) n \<noteq> None \<and> sys_enabled (system_named sm n)"
    using look by (auto simp: systemsInPhase_def system_named_def)
  have "map (system_named sm) (map fst (filter ?Q xs)) = map (\<lambda>(name, reg). reg_system reg) (filter ?Q xs)"
    if "set xs \<subseteq> set (systems sm)" for xs
    using that look by (induction xs) (auto simp: system_named_def)
  from this[of "systems sm"]
  have names: "map (system_named sm) (systemsInPhase phase sm)
                    = map (\<lambda>(name, reg). reg_system reg) (filter ?Q (systems sm))"
    by (simp add: systemsInPhase_def)
  have "filter (due t) (map (\<lambda>(name, reg). reg_system reg) (filter ?Q xs))
        = map (\<lambda>(name, reg). reg_system reg)
            (filter (\<lambda>(name, reg). reg_phase reg = phase \<and> due t (reg_system reg)) xs)"
    for xs :: "(string \<times> 'a SystemRegistration) list" and t
    by (induction xs) (auto simp: due_def)
  then have "filter (due (sm_tickCount sm)) (map (\<lambda>(name, reg). reg_system reg) (filter ?Q (systems sm)))
        = phase_due sm phase"
    by (simp add: phase_due_def)
  then show ?thesis
    using run_systems_world[OF assms(1)[unfolded updatePhase_def] pre] names by simp
qed

lemma phases_world:
  assumes "foldl (\<lambda>(sm', w') phase. updatePhase now phase ctx sm' w') (sm, w) ps = (sm', w')"
    and "distinct (map fst (systems sm))"
  shows "static_part sm' = static_part sm
       \<and> w' = apply_updates ctx w (concat (map (phase_due sm) ps))"
  using assms
proof (induction ps arbitrary: sm w)
  case Nil
  then show ?case by (simp add: apply_updates_def)
next
  case (Cons p ps)
  obtain sm1 w1 where u: "updatePhase now p ctx sm w = (sm1, w1)"
    by (cases "updatePhase now p ctx sm w")
  from updatePhase_world[OF u Cons.prems(2)] have st: "static_part sm1 = static_part sm"
    and w1: "w1 = apply_updates ctx w (phase_due sm p)" by simp_all
  have d: "distinct (map fst (systems sm1))"
    using static_part_keys(1)[OF st] Cons.prems(2) by simp
  have f: "foldl (\<lambda>(sm', w') phase. updatePhase now phase ctx sm' w') (sm1, w1) ps = (sm', w')"
    using Cons.prems(1) u by simp
  from Cons.IH[OF f d] have "static_part sm' = static_part sm1"
    and "w' = apply_updates ctx w1 (concat (map (phase_due sm1) ps))" by simp_all
  moreover have "map (phase_due sm1) ps = map (phase_due sm) ps"
    using phase_due_static[OF st] by simp
  ultimately show ?case using st w1 by (simp add: apply_updates_append)
qed

lemma sm_update_world:
  assumes "distinct (map fst (systems sm))"
  shows "snd (sm_update now ctx sm w) = apply_updates ctx w (due_systems sm)
       \<and> sm_tickCount (fst (sm_update now ctx sm w)) = Suc (sm_tickCount sm)
       \<and> map fst (systems (fst (sm_update now ctx sm w))) = map fst (systems sm)"
proof -
  let ?sm0 = "sm\<lparr> sm_tickCount := Suc (sm_tickCount sm) \<rparr>"
  obtain sm' w' where u: "sm_update now ctx sm w = (sm', w')" by (cases "sm_update now ctx sm w")
  have d: "distinct (map fst (systems ?sm0))" using assms by simp
  from phases_world[OF u[unfolded sm_update_def] d]
  have st: "static_part sm' = static_part ?sm0"
    and w': "w' = apply_updates ctx w (concat (map (phase_due ?sm0) phases))" by simp_all
  show ?thesis using u w' static_part_keys[OF st] by (simp add: due_systems_def)
qed


text \<open>Registration keeps the names distinct, as the keys of a \<open>Map\<close> are.\<close>

lemma register_distinct:
  assumes "distinct (map fst (systems sm))"
  shows "distinct (map fst (systems (fst (register system phase sm w))))"
  using assms by (simp add: register_def distinct_update)

lemma new_SystemManager_distinct: "distinct (map fst (systems new_SystemManager))"
  by (simp add: new_SystemManager_def)

text \<open>
  Claim C5.  In every tick the world is what results from applying, in phase order and
  within a phase in registration order, the update of every due system, whatever any of
  them throws: a throwing system stops neither the systems after it in its phase nor
  those of later phases.  The update that the loop calls reports no throw, and a frame
  of the running loop returns with the loop still running and its tick counter advanced
  by the number of fixed ticks in the accumulated time.
\<close>

theorem throwing_system_is_isolated:
  assumes "distinct (map fst (systems sm))"
  shows "snd (sm_update now ctx sm w) = apply_updates ctx w (due_systems sm)
       \<and> fst (world_update now ctx \<lparr> paused = False, systemManager = sm, world = w \<rparr>)
           = \<lparr> paused = False, systemManager = fst (sm_update now ctx sm w),
               world = apply_updates ctx w (due_systems sm) \<rparr>
       \<and> snd (world_update now ctx \<lparr> paused = False, systemManager = sm, world = w \<rparr>) = False
       \<and> (isRunning g \<and> loop_inv g \<and> 0 \<le> accumulator g \<and> 0 \<le> d \<longrightarrow>
            (\<exists>g' gw'. loop (world_update now) (lastTime g + d) g
                          \<lparr> paused = False, systemManager = sm, world = w \<rparr> = Some (g', gw')
               \<and> isRunning g'
               \<and> tickCount g' = tickCount g
                    + nat \<lfloor>(accumulator g + min d (fixedDeltaTime g * 10)) / fixedDeltaTime g\<rfloor>))"
proof -
  have 1: "snd (sm_update now ctx sm w) = apply_updates ctx w (due_systems sm)"
    using sm_update_world[OF assms] by simp
  have 2: "fst (world_update now ctx \<lparr> paused = False, systemManager = sm, world = w \<rparr>)
           = \<lparr> paused = False, systemManager = fst (sm_update now ctx sm w),
               world = apply_updates ctx w (due_systems sm) \<rparr>"
    using 1 by (simp add: world_update_def case_prod_unfold Let_def)
  have 3: "snd (world_update now ctx \<lparr> paused = False, systemManager = sm, world = w \<rparr>) = False"
    by (simp add: world_update_def case_prod_unfold Let_def)
  have 4: "\<exists>g' gw'. loop (world_update now) (lastTime g + d) g
                          \<lparr> paused = False, systemManager = sm, world = w \<rparr> = Some (g', gw')
               \<and> isRunning g'
               \<and> tickCount g' = tickCount g
                    + nat \<lfloor>(accumulator g + min d (fixedDeltaTime g * 10)) / fixedDeltaTime g\<rfloor>"
    if "isRunning g" "loop_inv g" "0 \<le> accumulator g" "0 \<le> d"
    using loop_frame[OF that, of "world_update now" "\<lparr> paused = False, systemManager = sm, world = w \<rparr>"]
    by blast
  show ?thesis using 1 2 3 4 by blast
qed

lemmas sched_eval = sample_world_def register_def new_SystemManager_def logging_system_def
  due_systems_def phase_due_def due_def phases_def apply_updates_def

theorem throwing_system_is_isolated_witness:
  "snd (sm_update (\<lambda>w. 0) \<lparr> ctx_deltaTime = 50 / 3, ctx_totalTime = 0, ctx_tickCount = 0 \<rparr>
          (systemManager sample_world) [])
     = [''A'', ''B'', ''C'']
   \<and> (\<exists>g' gw'. loop (world_update (\<lambda>w. 0)) (lastTime sample_loop + 60) sample_loop
                   \<lparr> paused = False, systemManager = systemManager sample_world, world = [] \<rparr>
                 = Some (g', gw')
              \<and> isRunning g' \<and> tickCount g' = 3)"
proof -
  have d: "distinct (map fst (systems (systemManager sample_world)))"
    by (simp add: sched_eval)
  have a: "apply_updates \<lparr> ctx_deltaTime = 50 / 3, ctx_totalTime = 0, ctx_tickCount = 0 \<rparr> []
             (due_systems (systemManager sample_world)) = [''A'', ''B'', ''C'']"
    by (simp add: sched_eval)
  have l: "isRunning sample_loop \<and> loop_inv sample_loop \<and> 0 \<le> accumulator sample_loop
           \<and> (0::rat) \<le> 60"
    by (simp add: sample_loop_def loop_inv_def)
  have "(accumulator sample_loop + min 60 (fixedDeltaTime sample_loop * 10))
           / fixedDeltaTime sample_loop = 18 / 5"
    by (simp add: sample_loop_def)
  moreover have "\<lfloor>18 / 5 :: rat\<rfloor> = 3" by (simp add: floor_eq_iff)
  ultimately have "\<lfloor>(accumulator sample_loop + min 60 (fixedDeltaTime sample_loop * 10))
                      / fixedDeltaTime sample_loop\<rfloor> = 3"
    by (rule ssubst)
  moreover have "tickCount sample_loop = 0" by (simp add: sample_loop_def)
  ultimately have k: "tickCount sample_loop
            + nat \<lfloor>(accumulator sample_loop + min 60 (fixedDeltaTime sample_loop * 10))
                     / fixedDeltaTime sample_loop\<rfloor> = 3"
    by simp
  from throwing_system_is_isolated[OF d, of "\<lambda>w. 0"
      "\<lparr> ctx_deltaTime = 50 / 3, ctx_totalTime = 0, ctx_tickCount = 0 \<rparr>" "[]" sample_loop 60]
  show ?thesis unfolding a k using l by blast
qed

end
